theory Spec2Isabelle
  imports Main
begin

section \<open>Strings and character classes\<close>

text \<open>
  A Python \<open>str\<close> is a sequence of Unicode code points.  The development covers
  the code points U+0000 to U+00FF (Latin-1, which holds the Spanish alphabet):
  one \<^typ>\<open>char\<close> per code point, \<^term>\<open>of_char c :: nat\<close> being its number.
  The three classes below are the ones the patterns of \<open>src/main.py\<close> use, as
  Python's \<open>re\<close> module decides them for \<open>str\<close> patterns on that range:
  \<^item> \<open>[A-Za-z]\<close>: the 52 ASCII letters;
  \<^item> \<open>\d\<close>: the decimal digits (category Nd), on this range \<open>0\<close> to \<open>9\<close>;
  \<^item> \<open>\w\<close>: what \<open>str.isalnum\<close> accepts, and the underscore.
\<close>

definition is_ascii_letter :: "char \<Rightarrow> bool" where
  "is_ascii_letter c =
     (let n = (of_char c :: nat) in (65 \<le> n \<and> n \<le> 90) \<or> (97 \<le> n \<and> n \<le> 122))"

definition is_digit :: "char \<Rightarrow> bool" where
  "is_digit c = (let n = (of_char c :: nat) in 48 \<le> n \<and> n \<le> 57)"

definition is_word :: "char \<Rightarrow> bool" where
  "is_word c =
     (let n = (of_char c :: nat) in
        is_digit c \<or> is_ascii_letter c \<or> n = 95
        \<or> n = 170 \<or> n = 178 \<or> n = 179 \<or> n = 181 \<or> n = 185 \<or> n = 186
        \<or> n = 188 \<or> n = 189 \<or> n = 190
        \<or> (192 \<le> n \<and> n \<le> 214) \<or> (216 \<le> n \<and> n \<le> 246) \<or> 248 \<le> n)"

text \<open>
  \<open>str.lower()\<close>: on this range the upper-case letters are \<open>A\<close> to \<open>Z\<close>,
  U+00C0 to U+00D6 and U+00D8 to U+00DE; each one's lower-case form is 32 code points
  further.  Every other code point is its own lower-case form.
\<close>

definition lower_char :: "char \<Rightarrow> char" where
  "lower_char c =
     (let n = (of_char c :: nat) in
        if (65 \<le> n \<and> n \<le> 90) \<or> (192 \<le> n \<and> n \<le> 214) \<or> (216 \<le> n \<and> n \<le> 222)
        then char_of (n + 32) else c)"

definition lower :: "string \<Rightarrow> string" where
  "lower s = map lower_char s"

section \<open>Exceptions and the run-time environment\<close>

text \<open>
  Every exception the code can meet is a value, named by its class; all of them
  are subclasses of Python's \<open>Exception\<close>.  \<open>HTTPException\<close> carries its status
  code, the literal text of its detail and, for the detail
  \<open>f"Error al generar el audio: {e}"\<close>, the exception \<open>e\<close> that is formatted
  into it.  \<open>OtherError\<close> stands for any other class, by its name.
\<close>

datatype pyexn =
    HTTPException nat string "pyexn option"
  | ValueError
  | OverflowError
  | OtherError string

text \<open>A call that raises leaves the function at once: the rest is skipped.\<close>

definition bind_result :: "pyexn + 'a \<Rightarrow> ('a \<Rightarrow> pyexn + 'b) \<Rightarrow> pyexn + 'b" where
  "bind_result r f = (case r of Inl e \<Rightarrow> Inl e | Inr v \<Rightarrow> f v)"

text \<open>
  What the normaliser takes from outside the repository:
  \<^item> \<open>num2words\<close>: the call \<open>num2words(n, lang='es')\<close> of the third-party
    library of that name, which returns the spelling or raises;
  \<^item> \<open>int_max_str_digits\<close>: the interpreter's \<open>sys.get_int_max_str_digits()\<close>,
    the longest digit string \<open>int()\<close> converts (4300 by default, 0 for no limit).
\<close>

record runtime =
  num2words :: "int \<Rightarrow> pyexn + string"
  int_max_str_digits :: nat

section \<open>The three substitutions of \<open>traducir_numero_a_texto\<close>\<close>

text \<open>
  \<open>re.sub\<close> replaces the leftmost non-overlapping matches: it tries the pattern at
  the current position; on a match it writes the replacement and goes on after the
  match, otherwise it copies one character and goes on at the next position.

  Line 57: \<open>re.sub(r'([A-Za-z])(\d)', r'\1 \2', texto)\<close>.
\<close>

fun re_sub_letter_digit :: "string \<Rightarrow> string" where
  "re_sub_letter_digit (a # b # cs) =
     (if is_ascii_letter a \<and> is_digit b
      then a # CHR '' '' # b # re_sub_letter_digit cs
      else a # re_sub_letter_digit (b # cs))"
| "re_sub_letter_digit cs = cs"

text \<open>Line 58: \<open>re.sub(r'(\d)([A-Za-z])', r'\1 \2', texto_separado)\<close>.\<close>

fun re_sub_digit_letter :: "string \<Rightarrow> string" where
  "re_sub_digit_letter (a # b # cs) =
     (if is_digit a \<and> is_ascii_letter b
      then a # CHR '' '' # b # re_sub_digit_letter cs
      else a # re_sub_digit_letter (b # cs))"
| "re_sub_digit_letter cs = cs"

text \<open>
  Line 64: \<open>re.sub(r'\b\d+\b', reemplazar_numero, texto_separado)\<close>.

  \<open>\b\<close> holds at a position when exactly one of the characters before and after
  it is a \<open>\w\<close> character; the two ends of the string count as not \<open>\w\<close>.  The scan
  keeps the character before the current position (\<open>prev\<close>) and the rest of the
  string.
\<close>

definition is_word_opt :: "char option \<Rightarrow> bool" where
  "is_word_opt p = (case p of None \<Rightarrow> False | Some c \<Rightarrow> is_word c)"

definition word_boundary :: "char option \<Rightarrow> char option \<Rightarrow> bool" where
  "word_boundary p n = (is_word_opt p \<noteq> is_word_opt n)"

definition char_at :: "string \<Rightarrow> nat \<Rightarrow> char option" where
  "char_at s i = (if i < length s then Some (s ! i) else None)"

definition boundary_in :: "char option \<Rightarrow> string \<Rightarrow> nat \<Rightarrow> bool" where
  "boundary_in prev s i =
     word_boundary (if i = 0 then prev else char_at s (i - 1)) (char_at s i)"

text \<open>
  \<open>\d+\b\<close> is greedy: it takes the whole run of digits at the current position,
  then gives digits back one at a time until \<open>\b\<close> holds, keeping at least one.
  The result is the length of the match.
\<close>

fun digits_then_boundary :: "char option \<Rightarrow> string \<Rightarrow> nat \<Rightarrow> nat option" where
  "digits_then_boundary prev s 0 = None"
| "digits_then_boundary prev s (Suc k) =
     (if boundary_in prev s (Suc k) then Some (Suc k)
      else digits_then_boundary prev s k)"

definition match_number :: "char option \<Rightarrow> string \<Rightarrow> nat option" where
  "match_number prev s =
     (if boundary_in prev s 0
      then digits_then_boundary prev s (length (takeWhile is_digit s))
      else None)"

lemma digits_then_boundary_pos: "digits_then_boundary prev s n = Some k \<Longrightarrow> 0 < k"
  by (induction n) (auto split: if_splits)

lemma match_number_pos: "match_number prev s = Some k \<Longrightarrow> 0 < k"
  by (auto simp: match_number_def split: if_splits dest: digits_then_boundary_pos)

text \<open>
  The callback is called at each match, from left to right; an exception it
  raises leaves \<open>re.sub\<close> at once.
\<close>

function re_sub_numbers ::
  "(string \<Rightarrow> pyexn + string) \<Rightarrow> char option \<Rightarrow> string \<Rightarrow> pyexn + string" where
  "re_sub_numbers repl prev [] = Inr []"
| "re_sub_numbers repl prev (c # cs) =
     (case match_number prev (c # cs) of
        None \<Rightarrow>
          (case re_sub_numbers repl (Some c) cs of
             Inl e \<Rightarrow> Inl e
           | Inr out \<Rightarrow> Inr (c # out))
      | Some k \<Rightarrow>
          (case repl (take k (c # cs)) of
             Inl e \<Rightarrow> Inl e
           | Inr w \<Rightarrow>
               (case re_sub_numbers repl (char_at (c # cs) (k - 1)) (drop k (c # cs)) of
                  Inl e \<Rightarrow> Inl e
                | Inr out \<Rightarrow> Inr (w @ out))))"
  by pat_completeness auto
termination
  by (relation "measure (\<lambda>(repl, prev, s). length s)")
     (auto dest: match_number_pos)

section \<open>The normaliser\<close>

text \<open>
  \<open>int(numero)\<close>, for the strings the callback receives: \<open>numero\<close> is a match of
  \<open>\d+\<close>, a non-empty string of decimal digits.  \<open>int\<close> reads it in base 10, leading
  zeros included, with no bound on the value.  A string of more than 640 digits
  (the interpreter's check threshold) that is also longer than the limit in
  force is refused with \<open>ValueError\<close>.
\<close>

definition digit_value :: "char \<Rightarrow> int" where
  "digit_value c = int (of_char c) - 48"

definition py_int :: "runtime \<Rightarrow> string \<Rightarrow> pyexn + int" where
  "py_int rt numero =
     (if 640 < length numero \<and> 0 < int_max_str_digits rt
          \<and> int_max_str_digits rt < length numero
      then Inl ValueError
      else Inr (foldl (\<lambda>acc c. 10 * acc + digit_value c) 0 numero))"

text \<open>Lines 60 to 62: \<open>return num2words(int(numero), lang='es')\<close>.\<close>

definition reemplazar_numero :: "runtime \<Rightarrow> string \<Rightarrow> pyexn + string" where
  "reemplazar_numero rt numero =
     bind_result (py_int rt numero) (\<lambda>n. num2words rt n)"

text \<open>Lines 56 to 64.\<close>

definition traducir_numero_a_texto :: "runtime \<Rightarrow> string \<Rightarrow> pyexn + string" where
  "traducir_numero_a_texto rt texto =
     (let texto_separado = re_sub_letter_digit texto;
          texto_separado = re_sub_digit_letter texto_separado
      in re_sub_numbers (reemplazar_numero rt) None texto_separado)"

text \<open>
  Lines 72 and 73 of \<open>infer\<close>, the text preprocessing:
  \<open>gen_text = gen_text.lower(); gen_text = traducir_numero_a_texto(gen_text)\<close>.
\<close>

definition normalize_text :: "runtime \<Rightarrow> string \<Rightarrow> pyexn + string" where
  "normalize_text rt gen_text = traducir_numero_a_texto rt (lower gen_text)"

section \<open>The inference step and the endpoint\<close>

text \<open>
  The model, the vocoder, the audio files and the temporary files are outside the
  repository.  Each call into them either returns or raises; what it does is a
  parameter, so that every theorem holds whatever the collaborators do.  The
  audio bytes and the two floats of the request only travel to these calls and
  are part of what the parameters stand for; \<open>'w\<close> is the waveform.  The calls
  to the logger and to the clock take no part in what is returned or raised and
  are left out.
  \<^item> \<open>save_upload\<close>: lines 117 to 119, writing the upload to a temporary file;
  \<^item> \<open>infer_process\<close>: lines 76 to 79, from the reference text and the
    normalised text;
  \<^item> \<open>trim_silence\<close>: lines 83 to 87;
  \<^item> \<open>save_spectrogram\<close>: lines 90 to 92;
  \<^item> \<open>write_output\<close>: lines 132 to 135.
\<close>

record 'w collaborators =
  save_upload :: "pyexn option"
  infer_process :: "string \<Rightarrow> string \<Rightarrow> pyexn + 'w"
  trim_silence :: "'w \<Rightarrow> pyexn + 'w"
  save_spectrogram :: "pyexn option"
  write_output :: "'w \<Rightarrow> pyexn option"

definition raising :: "pyexn option \<Rightarrow> pyexn + unit" where
  "raising r = (case r of None \<Rightarrow> Inr () | Some e \<Rightarrow> Inl e)"

text \<open>Lines 68 to 95.\<close>

definition infer ::
  "'w collaborators \<Rightarrow> runtime \<Rightarrow> string \<Rightarrow> string \<Rightarrow> bool \<Rightarrow> pyexn + 'w" where
  "infer col rt ref_text gen_text remove_silence =
     bind_result (normalize_text rt gen_text) (\<lambda>gen_text.
     bind_result (infer_process col ref_text gen_text) (\<lambda>final_wave.
     bind_result (if remove_silence then trim_silence col final_wave else Inr final_wave)
       (\<lambda>final_wave.
     bind_result (raising (save_spectrogram col)) (\<lambda>_. Inr final_wave))))"

text \<open>
  The request: \<open>ref_audio.filename\<close> (which may be \<open>None\<close>), the two texts and the
  flag.  The answer is the generated file or the exception that leaves the
  handler.
\<close>

record request =
  filename :: "string option"
  ref_text :: string
  gen_text :: string
  remove_silence :: bool

datatype 'w response = FileResponse 'w

definition endswith :: "string \<Rightarrow> string \<Rightarrow> bool" where
  "endswith s suffix =
     (length suffix \<le> length s \<and> drop (length s - length suffix) s = suffix)"

text \<open>Lines 112 to 144, the body of the \<open>try\<close>.\<close>

definition generate_audio_body ::
  "'w collaborators \<Rightarrow> runtime \<Rightarrow> request \<Rightarrow> pyexn + 'w response" where
  "generate_audio_body col rt req =
     (case filename req of
        None \<Rightarrow> Inl (OtherError ''AttributeError'')
      | Some name \<Rightarrow>
          if \<not> endswith name ''.wav''
          then Inl (HTTPException 400 ''El archivo de audio debe estar en formato WAV.'' None)
          else
            bind_result (raising (save_upload col)) (\<lambda>_.
            if ref_text req = [] \<or> gen_text req = []
            then Inl (HTTPException 400
                   (''Ambos textos (de referencia y generaci'' @ [CHR 0xF3] @
                    ''n) son obligatorios.'') None)
            else
              bind_result (infer col rt (ref_text req) (gen_text req) (remove_silence req))
                (\<lambda>final_wave.
              bind_result (raising (write_output col final_wave)) (\<lambda>_.
                Inr (FileResponse final_wave)))))"

text \<open>Lines 111 and 146 to 148: \<open>except Exception as e\<close> around the body.\<close>

definition generate_audio ::
  "'w collaborators \<Rightarrow> runtime \<Rightarrow> request \<Rightarrow> pyexn + 'w response" where
  "generate_audio col rt req =
     (case generate_audio_body col rt req of
        Inl e \<Rightarrow> Inl (HTTPException 500 ''Error al generar el audio: '' (Some e))
      | Inr r \<Rightarrow> Inr r)"

text \<open>
  Lines 98 to 106, the route.  The framework reads the declared parameters from
  the request before it calls the handler: \<open>ref_audio: UploadFile = File(...)\<close> is
  a required file, and a request the parameters cannot be read from (one without
  the \<open>ref_audio\<close> part, for one) is answered with status 422 without the handler
  being called.  \<open>sent\<close> is \<open>None\<close> for such a request and holds the handler's
  arguments otherwise.  An \<open>HTTPException\<close> that leaves the handler is answered
  with its status, any other exception with 500, and the file with 200.
\<close>

definition status_of :: "pyexn + 'w response \<Rightarrow> nat" where
  "status_of r =
     (case r of
        Inr _ \<Rightarrow> 200
      | Inl (HTTPException status _ _) \<Rightarrow> status
      | Inl _ \<Rightarrow> 500)"

definition post_generate_audio ::
  "'w collaborators \<Rightarrow> runtime \<Rightarrow> request option \<Rightarrow> nat" where
  "post_generate_audio col rt sent =
     (case sent of
        None \<Rightarrow> 422
      | Some req \<Rightarrow> status_of (generate_audio col rt req))"

section \<open>A run-time environment for concrete runs\<close>

text \<open>
  \<open>num2words\<close> is a third-party library, not code of the repository, and the
  theorems below hold for every \<^typ>\<open>runtime\<close>.  To run the normaliser on a
  concrete input one environment is written out: the library's Spanish cardinals
  as the library documents them (its word lists for 0 to 29, the tens and the
  hundreds, \<open>mil\<close>, and the powers of a million up to the fourth, with their
  plurals; the accented letters are U+00E9 and U+00F3), \<open>OverflowError\<close> from
  \<open>10 ** 27\<close> on, and the interpreter's default limit of 4300 digits.
\<close>

definition low_numwords :: "string list" where
  "low_numwords =
     [''cero'', ''uno'', ''dos'', ''tres'', ''cuatro'', ''cinco'', ''seis'', ''siete'',
      ''ocho'', ''nueve'', ''diez'', ''once'', ''doce'', ''trece'', ''catorce'', ''quince'',
      ''diecis'' @ [CHR 0xE9] @ ''is'', ''diecisiete'', ''dieciocho'', ''diecinueve'',
      ''veinte'', ''veintiuno'', ''veintid'' @ [CHR 0xF3] @ ''s'',
      ''veintitr'' @ [CHR 0xE9] @ ''s'', ''veinticuatro'', ''veinticinco'',
      ''veintis'' @ [CHR 0xE9] @ ''is'', ''veintisiete'', ''veintiocho'', ''veintinueve'']"

definition tens_numwords :: "string list" where
  "tens_numwords =
     [''treinta'', ''cuarenta'', ''cincuenta'', ''sesenta'', ''setenta'', ''ochenta'',
      ''noventa'']"

definition high_numwords :: "string list" where
  "high_numwords = [''m'', ''b'', ''tr'', ''cuatr'']"

definition below_100 :: "nat \<Rightarrow> string" where
  "below_100 n =
     (if n < 30 then low_numwords ! n
      else tens_numwords ! (n div 10 - 3) @
           (if n mod 10 = 0 then [] else '' y '' @ low_numwords ! (n mod 10)))"

definition hundreds :: "nat \<Rightarrow> bool \<Rightarrow> string" where
  "hundreds d exact =
     (if d = 1 then (if exact then ''cien'' else ''ciento'')
      else if d = 5 then ''quinientos''
      else if d = 7 then ''setecientos''
      else if d = 9 then ''novecientos''
      else low_numwords ! d @ ''cientos'')"

definition below_1000 :: "nat \<Rightarrow> string" where
  "below_1000 n =
     (if n < 100 then below_100 n
      else hundreds (n div 100) (n mod 100 = 0) @
           (if n mod 100 = 0 then [] else '' '' @ below_100 (n mod 100)))"

definition below_million :: "nat \<Rightarrow> string" where
  "below_million n =
     (if n < 1000 then below_1000 n
      else (if n div 1000 = 1 then ''mil'' else below_1000 (n div 1000) @ '' mil'') @
           (if n mod 1000 = 0 then [] else '' '' @ below_1000 (n mod 1000)))"

text \<open>\<open>cardinal k n\<close> spells \<open>n\<close> with the powers of a million up to the \<open>k\<close>-th.\<close>

fun cardinal :: "nat \<Rightarrow> nat \<Rightarrow> string" where
  "cardinal 0 n = below_million n"
| "cardinal (Suc k) n =
     (let e = 10 ^ (6 * Suc k); d = n div e; m = n mod e in
        if d = 0 then cardinal k n
        else (if d = 1 then ''un '' @ high_numwords ! k @ ''ill'' @ [CHR 0xF3] @ ''n''
              else cardinal k d @ '' '' @ high_numwords ! k @ ''illones'') @
             (if m = 0 then [] else '' '' @ cardinal k m))"

definition num2words_es :: "int \<Rightarrow> pyexn + string" where
  "num2words_es n =
     (if 10 ^ 27 \<le> \<bar>n\<bar> then Inl OverflowError
      else Inr ((if n < 0 then ''menos '' else []) @ cardinal 4 (nat \<bar>n\<bar>)))"

definition es_runtime :: runtime where
  "es_runtime = \<lparr> num2words = num2words_es, int_max_str_digits = 4300 \<rparr>"

section \<open>Requests and collaborators for concrete runs\<close>

text \<open>
  Collaborators that always succeed (the waveform stands for the text it was
  made from), a request whose reference audio is not a WAV file and a request
  without text to synthesise.
\<close>

definition quiet_collaborators :: "string collaborators" where
  "quiet_collaborators =
     \<lparr> save_upload = None,
       infer_process = (\<lambda>ref_text gen_text. Inr gen_text),
       trim_silence = (\<lambda>wave. Inr wave),
       save_spectrogram = None,
       write_output = (\<lambda>wave. None) \<rparr>"

definition request_mp3 :: request where
  "request_mp3 =
     \<lparr> filename = Some ''voz.mp3'', ref_text = ''hola'', gen_text = ''adios'',
       remove_silence = False \<rparr>"

definition request_no_text :: request where
  "request_no_text =
     \<lparr> filename = Some ''voz.wav'', ref_text = ''hola'', gen_text = [],
       remove_silence = False \<rparr>"

definition request_big :: request where
  "request_big =
     \<lparr> filename = Some ''voz.wav'', ref_text = ''hola'',
       gen_text = ''son 1000000000000000000000000000 euros'', remove_silence = False \<rparr>"

text \<open>
  Collaborators with which writing the generated file fails, and a request that
  is in order.
\<close>

definition disk_full :: "string collaborators" where
  "disk_full = quiet_collaborators \<lparr> write_output := (\<lambda>wave. Some (OtherError ''OSError'')) \<rparr>"

definition request_hola :: request where
  "request_hola =
     \<lparr> filename = Some ''voz.wav'', ref_text = ''hola'', gen_text = ''Hola'',
       remove_silence = False \<rparr>"

section \<open>The boundary insertion, in the words of the specification\<close>

text \<open>
  ``Insert a single space between any letter immediately followed by a digit, and
  between any digit immediately followed by a letter'', the letters being those of
  the two patterns, \<open>[A-Za-z]\<close>.  \<open>gap a b\<close> is what is inserted between two
  neighbours, \<open>insert_spaces\<close> does it at every place of the string at once, and two
  neighbours are \<open>apart\<close> when nothing is to be inserted between them.
\<close>

definition gap :: "char \<Rightarrow> char \<Rightarrow> string" where
  "gap a b =
     (if (is_ascii_letter a \<and> is_digit b) \<or> (is_digit a \<and> is_ascii_letter b)
      then '' '' else [])"

fun insert_spaces :: "string \<Rightarrow> string" where
  "insert_spaces (a # b # cs) = a # gap a b @ insert_spaces (b # cs)"
| "insert_spaces cs = cs"

definition apart :: "char \<Rightarrow> char \<Rightarrow> bool" where
  "apart a b = (gap a b = [])"

section \<open>Digit runs and their neighbours\<close>

text \<open>
  \<open>run_len s\<close> is the length of the run of digits \<open>s\<close> starts with, and
  \<open>last_opt p s\<close> the character before the position that follows \<open>s\<close>, when
  \<open>p\<close> is the character before \<open>s\<close>.
\<close>

definition run_len :: "string \<Rightarrow> nat" where
  "run_len s = length (takeWhile is_digit s)"

definition last_opt :: "char option \<Rightarrow> string \<Rightarrow> char option" where
  "last_opt p s = (if s = [] then p else Some (last s))"

text \<open>
  A character at which a number can end without staying glued to a word: an ASCII
  letter (the insertion parts it from the digits) or a character that is not a
  word character.  This excludes the digits, the underscore and the alphanumeric
  characters outside ASCII.  \<open>space_if_letter\<close> is the space the insertion puts on
  that side of the run.
\<close>

definition number_edge :: "char \<Rightarrow> bool" where
  "number_edge c = (is_ascii_letter c \<or> \<not> is_word c)"

definition space_if_letter :: "bool \<Rightarrow> string" where
  "space_if_letter b = (if b then '' '' else [])"

text \<open>
  The value of a string of digits read in base 10: each digit counts for its
  value times the power of ten of its place.
\<close>

fun decimal_value :: "string \<Rightarrow> int" where
  "decimal_value [] = 0"
| "decimal_value (c # cs) = digit_value c * 10 ^ length cs + decimal_value cs"

text \<open>
  Two neighbours are \<open>digit_friendly\<close> when a digit among them has, on the other
  side, a digit or a \<open>number_edge\<close>; they are \<open>isolated\<close> when a digit among them
  has, on the other side, a digit or a character that is not a word character.
\<close>

definition digit_friendly :: "char \<Rightarrow> char \<Rightarrow> bool" where
  "digit_friendly a b =
     ((is_digit a \<longrightarrow> is_digit b \<or> number_edge b) \<and>
      (is_digit b \<longrightarrow> is_digit a \<or> number_edge a))"

definition isolated :: "char \<Rightarrow> char \<Rightarrow> bool" where
  "isolated a b =
     ((is_digit a \<longrightarrow> is_digit b \<or> \<not> is_word b) \<and>
      (is_digit b \<longrightarrow> is_digit a \<or> \<not> is_word a))"

text \<open>
  \<open>unmatched p s\<close>: the pattern \<open>\b\d+\b\<close> matches at no position of \<open>s\<close>, when
  \<open>p\<close> is the character before \<open>s\<close>.
\<close>

fun unmatched :: "char option \<Rightarrow> string \<Rightarrow> bool" where
  "unmatched p [] = True"
| "unmatched p (c # cs) = (match_number p (c # cs) = None \<and> unmatched (Some c) cs)"

text \<open>
  A character that is not a digit and is its own lower-case form.
\<close>

definition plain :: "char \<Rightarrow> bool" where
  "plain c = (\<not> is_digit c \<and> lower_char c = c)"

section \<open>The replacement, in the words of the specification\<close>

text \<open>
  The third step as the specification words it: scan the text, replace each
  maximal run of digits by its spelled-out form and keep every other character.
  \<open>spelled_out\<close> is the form of a run: what \<open>num2words\<close> returns for the value of
  the run in base 10.  A run longer than \<open>int\<close> accepts has none: the conversion
  raises \<open>ValueError\<close>.  An exception ends the scan.
\<close>

definition spelled_out :: "runtime \<Rightarrow> string \<Rightarrow> pyexn + string" where
  "spelled_out rt ds =
     (if length ds \<le> 640 \<or> int_max_str_digits rt = 0 \<or> length ds \<le> int_max_str_digits rt
      then num2words rt (decimal_value ds)
      else Inl ValueError)"

function spell_runs :: "(string \<Rightarrow> pyexn + string) \<Rightarrow> string \<Rightarrow> pyexn + string" where
  "spell_runs repl [] = Inr []"
| "spell_runs repl (c # cs) =
     (if is_digit c
      then (case repl (takeWhile is_digit (c # cs)) of
              Inl e \<Rightarrow> Inl e
            | Inr w \<Rightarrow>
                (case spell_runs repl (dropWhile is_digit (c # cs)) of
                   Inl e \<Rightarrow> Inl e
                 | Inr out \<Rightarrow> Inr (w @ out)))
      else (case spell_runs repl cs of
              Inl e \<Rightarrow> Inl e
            | Inr out \<Rightarrow> Inr (c # out)))"
  by pat_completeness auto
termination
  by (relation "measure (\<lambda>(repl, s). length s)")
     (auto simp: le_imp_less_Suc length_dropWhile_le)

section \<open>Character classes: facts\<close>

lemma digit_is_word: "is_digit c \<Longrightarrow> is_word c"
  by (simp add: is_word_def)

lemma letter_is_word: "is_ascii_letter c \<Longrightarrow> is_word c"
  by (simp add: is_word_def)

lemma letter_not_digit: "is_ascii_letter c \<Longrightarrow> \<not> is_digit c"
  by (auto simp: is_ascii_letter_def is_digit_def Let_def)

lemma of_char_lower_char:
  "(of_char (lower_char c) :: nat) =
     (let n = of_char c in
        if (65 \<le> n \<and> n \<le> 90) \<or> (192 \<le> n \<and> n \<le> 214) \<or> (216 \<le> n \<and> n \<le> 222)
        then n + 32 else n)"
  by (auto simp: lower_char_def Let_def)

lemma lower_char_digit: "is_digit (lower_char c) = is_digit c"
  by (auto simp: is_digit_def of_char_lower_char Let_def)

lemma lower_char_letter: "is_ascii_letter (lower_char c) = is_ascii_letter c"
  by (auto simp: is_ascii_letter_def of_char_lower_char Let_def)

lemma lower_char_word: "is_word (lower_char c) = is_word c"
  unfolding is_word_def lower_char_digit lower_char_letter
  by (auto simp: of_char_lower_char Let_def)

lemma lower_char_idem: "lower_char (lower_char c) = lower_char c"
  by (rule of_char_eqI[where ?'a = nat]) (auto simp: of_char_lower_char Let_def)

lemma space_classes: "\<not> is_digit (CHR '' '')" "\<not> is_ascii_letter (CHR '' '')" "\<not> is_word (CHR '' '')"
  by (simp_all add: is_digit_def is_ascii_letter_def is_word_def)

lemma lower_char_digit_id: "is_digit c \<Longrightarrow> lower_char c = c"
  by (auto simp: lower_char_def is_digit_def Let_def)

lemma lower_char_space: "lower_char (CHR '' '') = CHR '' ''"
  by (simp add: lower_char_def)

lemma lower_char_edge: "number_edge (lower_char c) = number_edge c"
  by (simp add: number_edge_def lower_char_letter lower_char_word)

lemma number_edge_not_digit: "number_edge c \<Longrightarrow> \<not> is_digit c"
  using letter_not_digit digit_is_word by (auto simp: number_edge_def)

lemma lower_no_digit: "(\<forall>c\<in>set (lower s). \<not> is_digit c) = (\<forall>c\<in>set s. \<not> is_digit c)"
  by (simp add: lower_def lower_char_digit)

lemma lower_idem: "lower (lower s) = lower s"
  by (simp add: lower_def lower_char_idem)

lemma lower_digits: "\<forall>c\<in>set ds. is_digit c \<Longrightarrow> lower ds = ds"
  by (simp add: lower_def lower_char_digit_id map_idI)

lemma lower_append: "lower (u @ v) = lower u @ lower v"
  by (simp add: lower_def)

lemma lower_Nil_iff: "lower s = [] \<longleftrightarrow> s = []"
  by (simp add: lower_def)

lemma lower_last: "s \<noteq> [] \<Longrightarrow> last (lower s) = lower_char (last s)"
  by (simp add: lower_def last_map)

lemma lower_hd: "s \<noteq> [] \<Longrightarrow> hd (lower s) = lower_char (hd s)"
  by (simp add: lower_def hd_map)

lemma lower_fixed: "\<forall>c\<in>set s. lower_char c = c \<Longrightarrow> lower s = s"
  by (simp add: lower_def map_idI)

lemma lower_friendly:
  "successively digit_friendly (lower s) = successively digit_friendly s"
proof -
  have "\<And>a b. digit_friendly (lower_char a) (lower_char b) = digit_friendly a b"
    by (simp add: digit_friendly_def number_edge_def lower_char_digit lower_char_letter
        lower_char_word)
  then show ?thesis by (simp add: lower_def successively_map)
qed

section \<open>The two insertion passes\<close>

lemma re_sub_letter_digit_id: "\<forall>c\<in>set s. \<not> is_digit c \<Longrightarrow> re_sub_letter_digit s = s"
  by (induction s rule: re_sub_letter_digit.induct) auto

lemma re_sub_digit_letter_id: "\<forall>c\<in>set s. \<not> is_digit c \<Longrightarrow> re_sub_digit_letter s = s"
  by (induction s rule: re_sub_digit_letter.induct) auto

lemma re_sub_letter_digit_Cons:
  "\<not> is_ascii_letter a \<Longrightarrow> re_sub_letter_digit (a # cs) = a # re_sub_letter_digit cs"
  by (cases cs) simp_all

lemma re_sub_digit_letter_Cons:
  "\<not> is_digit a \<Longrightarrow> re_sub_digit_letter (a # cs) = a # re_sub_digit_letter cs"
  by (cases cs) simp_all

lemma re_sub_letter_digit_hd: "\<exists>t. re_sub_letter_digit (a # cs) = a # t"
  by (cases cs) simp_all

lemma insert_spaces_hd: "\<exists>t. insert_spaces (a # cs) = a # t"
  by (cases cs) simp_all

lemma two_passes_insert_spaces:
  "re_sub_digit_letter (re_sub_letter_digit s) = insert_spaces s"
proof (induction s rule: insert_spaces.induct)
  case (1 a b cs)
  show ?case
  proof (cases "is_ascii_letter a \<and> is_digit b")
    case True
    then have nb: "\<not> is_ascii_letter b" and na: "\<not> is_digit a"
      using letter_not_digit by blast+
    from True have "re_sub_letter_digit (a # b # cs) = a # CHR '' '' # b # re_sub_letter_digit cs"
      by simp
    moreover have "re_sub_letter_digit (b # cs) = b # re_sub_letter_digit cs"
      using nb by (rule re_sub_letter_digit_Cons)
    ultimately have "re_sub_digit_letter (re_sub_letter_digit (a # b # cs))
        = a # CHR '' '' # re_sub_digit_letter (re_sub_letter_digit (b # cs))"
      using na by (simp add: re_sub_digit_letter_Cons space_classes)
    with True 1 show ?thesis by (simp add: gap_def)
  next
    case False
    obtain t where t: "re_sub_letter_digit (b # cs) = b # t"
      using re_sub_letter_digit_hd by blast
    from False have l1: "re_sub_letter_digit (a # b # cs) = a # b # t"
      using t by auto
    show ?thesis
    proof (cases "is_digit a \<and> is_ascii_letter b")
      case True
      then have "\<not> is_digit b" using letter_not_digit by blast
      then have "re_sub_digit_letter (b # t) = b # re_sub_digit_letter t"
        by (rule re_sub_digit_letter_Cons)
      with True l1 t 1 show ?thesis by (simp add: gap_def)
    next
      case False
      with \<open>\<not> (is_ascii_letter a \<and> is_digit b)\<close> l1 t 1 show ?thesis
        by (auto simp: gap_def)
    qed
  qed
qed simp_all

lemma gap_space: "gap a (CHR '' '') = []" "gap (CHR '' '') b = []"
  by (simp_all add: gap_def space_classes)

lemma apart_space: "apart a (CHR '' '')" "apart (CHR '' '') b"
  by (simp_all add: apart_def gap_space)

lemma insert_spaces_apart: "successively apart (insert_spaces s)"
proof (induction s rule: insert_spaces.induct)
  case (1 a b cs)
  obtain t where t: "insert_spaces (b # cs) = b # t"
    using insert_spaces_hd by blast
  with 1 have tl: "successively apart (b # t)" by simp
  show ?case
  proof (cases "gap a b = []")
    case True
    with t tl show ?thesis by (simp add: apart_def)
  next
    case False
    then have "gap a b = '' ''" by (simp add: gap_def split: if_splits)
    with t tl show ?thesis by (simp add: apart_space)
  qed
qed simp_all

lemma apart_insert_spaces_id: "successively apart s \<Longrightarrow> insert_spaces s = s"
  by (induction s rule: insert_spaces.induct) (simp_all add: apart_def)

lemma set_insert_spaces: "set (insert_spaces s) \<subseteq> insert (CHR '' '') (set s)"
  by (induction s rule: insert_spaces.induct) (auto simp: gap_def)

lemma insert_spaces_append:
  "insert_spaces (u @ v) =
     insert_spaces u @ (if u = [] \<or> v = [] then [] else gap (last u) (hd v)) @ insert_spaces v"
proof (induction u rule: insert_spaces.induct)
  case (1 a b cs)
  then show ?case by simp
qed (simp, cases v, simp_all)

lemma insert_spaces_digits: "\<forall>c\<in>set ds. is_digit c \<Longrightarrow> insert_spaces ds = ds"
  by (induction ds rule: insert_spaces.induct) (auto simp: gap_def dest: letter_not_digit)

lemma insert_spaces_Nil_iff: "insert_spaces s = [] \<longleftrightarrow> s = []"
  by (cases s rule: insert_spaces.cases) simp_all

lemma insert_spaces_last: "s \<noteq> [] \<Longrightarrow> last (insert_spaces s) = last s"
proof (induction s rule: insert_spaces.induct)
  case (1 a b cs)
  then show ?case by (simp add: insert_spaces_Nil_iff)
qed simp_all

lemma insert_spaces_head: "hd (insert_spaces s) = hd s"
  by (cases s rule: insert_spaces.cases) simp_all

lemma gap_left: "number_edge a \<Longrightarrow> is_digit d \<Longrightarrow> gap a d = space_if_letter (is_ascii_letter a)"
  by (auto simp: gap_def space_if_letter_def dest: number_edge_not_digit)

lemma gap_right: "number_edge b \<Longrightarrow> is_digit d \<Longrightarrow> gap d b = space_if_letter (is_ascii_letter b)"
  by (auto simp: gap_def space_if_letter_def dest: number_edge_not_digit letter_not_digit)

lemma insert_spaces_around_run:
  assumes "ds \<noteq> []" "\<forall>c\<in>set ds. is_digit c"
    and "u = [] \<or> number_edge (last u)" "v = [] \<or> number_edge (hd v)"
  shows "insert_spaces (u @ ds @ v) =
           (insert_spaces u @ space_if_letter (u \<noteq> [] \<and> is_ascii_letter (last u))) @
           ds @ space_if_letter (v \<noteq> [] \<and> is_ascii_letter (hd v)) @ insert_spaces v"
proof -
  have hd_ds: "is_digit (hd ds)" and last_ds: "is_digit (last ds)"
    using assms(1,2) by simp_all
  have right: "insert_spaces (ds @ v) =
      ds @ space_if_letter (v \<noteq> [] \<and> is_ascii_letter (hd v)) @ insert_spaces v"
  proof (cases "v = []")
    case True
    then show ?thesis using assms(2) by (simp add: insert_spaces_digits space_if_letter_def)
  next
    case False
    with assms(4) have "gap (last ds) (hd v) = space_if_letter (is_ascii_letter (hd v))"
      using last_ds by (simp add: gap_right)
    with False assms(1,2) show ?thesis
      by (simp add: insert_spaces_append insert_spaces_digits)
  qed
  show ?thesis
  proof (cases "u = []")
    case True
    with right show ?thesis by (simp add: space_if_letter_def)
  next
    case False
    with assms(3) have "gap (last u) (hd ds) = space_if_letter (is_ascii_letter (last u))"
      using hd_ds by (simp add: gap_left)
    with False assms(1) right show ?thesis
      by (simp add: insert_spaces_append[of u "ds @ v"])
  qed
qed

lemma isolated_space: "isolated a (CHR '' '')" "isolated (CHR '' '') b"
  by (simp_all add: isolated_def space_classes)

lemma friendly_isolated: "digit_friendly a b \<Longrightarrow> gap a b = [] \<Longrightarrow> isolated a b"
  by (auto simp: digit_friendly_def isolated_def gap_def number_edge_def split: if_splits)

lemma insert_spaces_isolated:
  "successively digit_friendly s \<Longrightarrow> successively isolated (insert_spaces s)"
proof (induction s rule: insert_spaces.induct)
  case (1 a b cs)
  obtain t where t: "insert_spaces (b # cs) = b # t"
    using insert_spaces_hd by blast
  from 1 have fr: "digit_friendly a b" and tl: "successively isolated (b # t)"
    using t by simp_all
  show ?case
  proof (cases "gap a b = []")
    case True
    with fr t tl show ?thesis by (simp add: friendly_isolated)
  next
    case False
    then have "gap a b = '' ''" by (simp add: gap_def split: if_splits)
    with t tl show ?thesis by (simp add: isolated_space)
  qed
qed simp_all

lemma apart_not_digits: "\<not> is_digit a \<Longrightarrow> \<not> is_digit b \<Longrightarrow> apart a b"
  by (simp add: apart_def gap_def)

lemma successively_apart_no_digits: "\<forall>c\<in>set w. \<not> is_digit c \<Longrightarrow> successively apart w"
proof (induction w)
  case Nil
  show ?case by simp
next
  case (Cons a w)
  then have ih: "successively apart w" by simp
  show ?case
  proof (cases w)
    case Nil
    then show ?thesis by simp
  next
    case (Cons b w')
    with Cons.prems have "apart a b" by (simp add: apart_not_digits)
    with ih Cons show ?thesis by simp
  qed
qed

section \<open>What \<open>\b\d+\b\<close> matches\<close>

lemma char_at_in_run: "k < run_len s \<Longrightarrow> \<exists>d. char_at s k = Some d \<and> is_digit d"
proof -
  assume k: "k < run_len s"
  have le: "length (takeWhile is_digit s) \<le> length s" by (rule length_takeWhile_le)
  from k have "s ! k = takeWhile is_digit s ! k" by (simp add: run_len_def takeWhile_nth)
  moreover from k have "takeWhile is_digit s ! k \<in> set (takeWhile is_digit s)"
    by (simp add: run_len_def)
  ultimately have "is_digit (s ! k)" by (auto dest: set_takeWhileD)
  with k le show ?thesis by (simp add: char_at_def run_len_def)
qed

lemma char_at_after_run: "char_at s (run_len s) = Some c \<Longrightarrow> \<not> is_digit c"
  unfolding char_at_def run_len_def
  using nth_length_takeWhile[of is_digit s] by (auto split: if_splits)

lemma no_inner_boundary:
  assumes "0 < k" "k < run_len s" shows "\<not> boundary_in p s k"
proof -
  from assms obtain d where d: "char_at s k = Some d" "is_digit d"
    using char_at_in_run by blast
  from assms have "k - 1 < run_len s" by simp
  then obtain d' where d': "char_at s (k - 1) = Some d'" "is_digit d'"
    using char_at_in_run by blast
  from d d' assms show ?thesis
    by (simp add: boundary_in_def word_boundary_def is_word_opt_def digit_is_word)
qed

lemma digits_then_boundary_inner: "k < run_len s \<Longrightarrow> digits_then_boundary p s k = None"
  by (induction k) (auto simp: no_inner_boundary)

lemma digits_then_boundary_run:
  "digits_then_boundary p s (run_len s) =
     (if 0 < run_len s \<and> boundary_in p s (run_len s) then Some (run_len s) else None)"
proof (cases "run_len s")
  case 0
  then show ?thesis by simp
next
  case (Suc m)
  then have "digits_then_boundary p s m = None"
    by (simp add: digits_then_boundary_inner)
  with Suc show ?thesis by simp
qed

lemma match_number_iff:
  "match_number p s =
     (if 0 < run_len s \<and> \<not> is_word_opt p \<and> \<not> is_word_opt (char_at s (run_len s))
      then Some (run_len s) else None)"
proof (cases "0 < run_len s")
  case False
  then show ?thesis
    using digits_then_boundary_run[of p s]
    by (simp add: match_number_def run_len_def)
next
  case True
  then obtain d where d: "char_at s 0 = Some d" "is_digit d"
    using char_at_in_run by blast
  from True have "run_len s - 1 < run_len s" by simp
  then obtain d' where d': "char_at s (run_len s - 1) = Some d'" "is_digit d'"
    using char_at_in_run by blast
  have b0: "boundary_in p s 0 = (\<not> is_word_opt p)"
    using d by (simp add: boundary_in_def word_boundary_def is_word_opt_def digit_is_word)
  have bn: "boundary_in p s (run_len s) = (\<not> is_word_opt (char_at s (run_len s)))"
    using d' True by (auto simp: boundary_in_def word_boundary_def is_word_opt_def digit_is_word)
  show ?thesis
    using True b0 bn digits_then_boundary_run[of p s]
    by (auto simp: match_number_def run_len_def)
qed

lemma run_len_Cons: "run_len (c # cs) = (if is_digit c then Suc (run_len cs) else 0)"
  by (simp add: run_len_def)

lemma match_number_no_digit: "\<not> is_digit c \<Longrightarrow> match_number p (c # cs) = None"
  by (simp add: match_number_iff run_len_Cons)

lemma match_number_length: "match_number p s = Some k \<Longrightarrow> k = run_len s \<and> 0 < k"
  by (auto simp: match_number_iff split: if_splits)

lemma run_len_digits: "\<forall>c\<in>set ds. is_digit c \<Longrightarrow> rest = [] \<or> \<not> is_digit (hd rest) \<Longrightarrow>
    run_len (ds @ rest) = length ds"
proof -
  assume ds: "\<forall>c\<in>set ds. is_digit c" and rest: "rest = [] \<or> \<not> is_digit (hd rest)"
  from ds have all: "takeWhile is_digit ds = ds" by simp
  show ?thesis
  proof (cases rest)
    case Nil
    show ?thesis by (simp only: Nil run_len_def append_Nil2 all)
  next
    case (Cons c cs)
    with rest have "takeWhile is_digit rest = []" by simp
    with ds show ?thesis by (simp add: run_len_def)
  qed
qed

lemma takeWhile_shorter: "\<exists>c\<in>set u. \<not> P c \<Longrightarrow> length (takeWhile P u) < length u"
  by (induction u) auto

lemma char_at_append_length:
  "char_at (ds @ rest) (length ds) = (if rest = [] then None else Some (hd rest))"
  by (cases rest) (simp_all add: char_at_def)

lemma take_append_lt: "k < length u \<Longrightarrow> take k (u @ x) = take k u"
  by simp

lemma drop_append_lt: "k < length u \<Longrightarrow> drop k (u @ x) = drop k u @ x"
  by simp

lemma char_at_append_lt: "k < length u \<Longrightarrow> char_at (u @ x) k = char_at u k"
  by (simp add: char_at_def nth_append)

lemma run_len_append_nondigit:
  assumes "u \<noteq> []" "\<not> is_digit (last u)"
  shows "run_len (u @ x) = run_len u" "run_len u < length u"
proof -
  have "last u \<in> set u" using assms(1) by simp
  with assms(2) have ex: "\<exists>c\<in>set u. \<not> is_digit c" by blast
  then show "run_len (u @ x) = run_len u"
    by (auto simp: run_len_def takeWhile_append1)
  from ex show "run_len u < length u"
    unfolding run_len_def by (rule takeWhile_shorter)
qed

lemma match_number_append_nondigit:
  assumes "u \<noteq> []" "\<not> is_digit (last u)"
  shows "match_number p (u @ x) = match_number p u"
proof -
  note r = run_len_append_nondigit[OF assms]
  have "char_at (u @ x) (run_len u) = char_at u (run_len u)"
    using r(2) by (simp add: char_at_def nth_append)
  with r(1)[of x] show ?thesis by (simp add: match_number_iff)
qed

lemma drop_run_head:
  "drop (run_len s) s = [] \<or> \<not> is_digit (hd (drop (run_len s) s))"
proof -
  have "drop (run_len s) s = dropWhile is_digit s"
    unfolding run_len_def by (rule dropWhile_eq_drop[symmetric])
  then show ?thesis using hd_dropWhile[of is_digit s] by auto
qed

lemma successively_drop: "successively P s \<Longrightarrow> successively P (drop k s)"
proof (induction k arbitrary: s)
  case 0
  then show ?case by simp
next
  case (Suc k)
  then show ?case by (cases s) (auto simp: successively_Cons)
qed

lemma isolated_after_run:
  "successively isolated s \<Longrightarrow> 0 < run_len s \<Longrightarrow> \<not> is_word_opt (char_at s (run_len s))"
proof (induction s)
  case Nil
  then show ?case by (simp add: run_len_def)
next
  case (Cons c cs)
  note iso = Cons.prems(1) and ih = Cons.IH
  from Cons.prems(2) have c: "is_digit c" by (simp add: run_len_Cons split: if_splits)
  then have rl: "run_len (c # cs) = Suc (run_len cs)" by (simp add: run_len_Cons)
  have ca: "\<And>n. char_at (c # cs) (Suc n) = char_at cs n"
    by (simp add: char_at_def)
  show ?case
  proof (cases "0 < run_len cs")
    case True
    moreover from iso have "successively isolated cs"
      by (auto simp: successively_Cons)
    ultimately have "\<not> is_word_opt (char_at cs (run_len cs))" by (rule ih[rotated])
    then show ?thesis unfolding rl ca .
  next
    case False
    then have z: "run_len cs = 0" by simp
    show ?thesis
    proof (cases cs)
      case Nil
      have "\<not> is_word_opt (char_at cs 0)"
        unfolding Nil by (simp add: char_at_def is_word_opt_def)
      then show ?thesis unfolding rl ca z .
    next
      case (Cons b bs)
      with z have "\<not> is_digit b" by (simp add: run_len_Cons split: if_splits)
      moreover from iso Cons have "isolated c b" by simp
      ultimately have "\<not> is_word b" using c by (simp add: isolated_def)
      then have "\<not> is_word_opt (char_at cs 0)"
        unfolding Cons by (simp add: char_at_def is_word_opt_def)
      then show ?thesis unfolding rl ca z .
    qed
  qed
qed

section \<open>The scan of the third substitution\<close>

lemma bind_result_Inr:
  "bind_result r f = Inr y \<longleftrightarrow> (\<exists>v. r = Inr v \<and> f v = Inr y)"
  by (cases r) (simp_all add: bind_result_def)

lemma re_sub_numbers_id: "\<forall>c\<in>set s. \<not> is_digit c \<Longrightarrow> re_sub_numbers repl p s = Inr s"
  by (induction s arbitrary: p) (auto simp: match_number_no_digit)

lemma re_sub_numbers_prev_word:
  "is_word_opt p = is_word_opt q \<Longrightarrow> re_sub_numbers repl p s = re_sub_numbers repl q s"
  by (cases s) (simp_all add: match_number_iff)

lemma re_sub_numbers_prev_any:
  "s = [] \<or> \<not> is_digit (hd s) \<Longrightarrow> re_sub_numbers repl p s = re_sub_numbers repl q s"
  by (cases s) (auto simp: match_number_no_digit)

lemma re_sub_numbers_keeps_head:
  "\<not> is_digit c \<Longrightarrow> re_sub_numbers repl p (c # cs) = Inr out \<Longrightarrow> \<exists>t. out = c # t"
  by (auto simp: match_number_no_digit split: sum.splits)

lemma re_sub_numbers_head:
  assumes "s = [] \<or> \<not> is_digit (hd s)" "re_sub_numbers repl q s = Inr out"
  shows "(s = [] \<and> out = []) \<or> (s \<noteq> [] \<and> out \<noteq> [] \<and> hd out = hd s)"
proof (cases s)
  case Nil
  with assms(2) show ?thesis by simp
next
  case (Cons c cs)
  with assms(1) have "\<not> is_digit c" by simp
  then obtain t where "out = c # t"
    using assms(2) re_sub_numbers_keeps_head unfolding Cons by blast
  with Cons show ?thesis by simp
qed

lemma re_sub_numbers_at_match:
  assumes "match_number p s = Some k"
  shows "re_sub_numbers repl p s =
           bind_result (repl (take k s)) (\<lambda>w.
           bind_result (re_sub_numbers repl (char_at s (k - 1)) (drop k s)) (\<lambda>out.
             Inr (w @ out)))"
proof (cases s)
  case Nil
  with assms show ?thesis by (simp add: match_number_iff run_len_def)
next
  case (Cons c cs)
  from assms have "match_number p (c # cs) = Some k" by (simp only: Cons)
  then show ?thesis
    by (simp only: Cons re_sub_numbers.simps option.case bind_result_def)
qed

lemma re_sub_numbers_at_nomatch:
  "match_number p (c # cs) = None \<Longrightarrow>
     re_sub_numbers repl p (c # cs) =
       bind_result (re_sub_numbers repl (Some c) cs) (\<lambda>out. Inr (c # out))"
  by (simp add: bind_result_def)

lemma re_sub_numbers_space:
  "re_sub_numbers repl p (CHR '' '' # s) =
     bind_result (re_sub_numbers repl None s) (\<lambda>out. Inr (CHR '' '' # out))"
proof -
  have "re_sub_numbers repl (Some (CHR '' '')) s = re_sub_numbers repl None s"
    by (rule re_sub_numbers_prev_word) (simp add: is_word_opt_def space_classes)
  then show ?thesis
    by (simp add: match_number_no_digit space_classes bind_result_def)
qed

lemma re_sub_numbers_matched_run:
  assumes "ds \<noteq> []" "\<forall>c\<in>set ds. is_digit c" "\<not> is_word_opt p"
    and "rest = [] \<or> \<not> is_word (hd rest)"
  shows "re_sub_numbers repl p (ds @ rest) =
           bind_result (repl ds) (\<lambda>w.
           bind_result (re_sub_numbers repl (Some (last ds)) rest) (\<lambda>out. Inr (w @ out)))"
proof -
  from assms(4) have nd: "rest = [] \<or> \<not> is_digit (hd rest)"
    using digit_is_word by blast
  have len: "run_len (ds @ rest) = length ds"
    using assms(2) nd by (rule run_len_digits)
  have after: "\<not> is_word_opt (char_at (ds @ rest) (length ds))"
    using assms(4) unfolding char_at_append_length by (auto simp: is_word_opt_def)
  have m: "match_number p (ds @ rest) = Some (length ds)"
    using len after assms(1,3) by (simp add: match_number_iff)
  have lt: "length ds - 1 < length ds" using assms(1) by simp
  then have "char_at (ds @ rest) (length ds - 1) = char_at ds (length ds - 1)"
    by (rule char_at_append_lt)
  also have "\<dots> = Some (last ds)"
    using assms(1) lt by (simp add: char_at_def last_conv_nth)
  finally have prev: "char_at (ds @ rest) (length ds - 1) = Some (last ds)" .
  have tk: "take (length ds) (ds @ rest) = ds" by simp
  have dk: "drop (length ds) (ds @ rest) = rest" by simp
  show ?thesis
    unfolding re_sub_numbers_at_match[OF m] prev tk dk ..
qed

lemma re_sub_numbers_unmatched_run:
  assumes "\<forall>c\<in>set ds. is_digit c" "rest = [] \<or> \<not> is_digit (hd rest)"
    and "is_word_opt p \<or> (rest \<noteq> [] \<and> is_word (hd rest))"
  shows "re_sub_numbers repl p (ds @ rest) =
           bind_result (re_sub_numbers repl (last_opt p ds) rest) (\<lambda>out. Inr (ds @ out))"
  using assms
proof (induction ds arbitrary: p)
  case Nil
  then show ?case by (simp add: last_opt_def bind_result_def split: sum.splits)
next
  case (Cons d ds)
  have len: "run_len ((d # ds) @ rest) = length (d # ds)"
    using Cons.prems(1,2) by (rule run_len_digits)
  have "is_word_opt p \<or> is_word_opt (char_at ((d # ds) @ rest) (length (d # ds)))"
    using Cons.prems(3) unfolding char_at_append_length by (auto simp: is_word_opt_def)
  with len have m: "match_number p (d # ds @ rest) = None"
    by (auto simp: match_number_iff)
  have "is_word_opt (Some d)" using Cons.prems(1) by (simp add: is_word_opt_def digit_is_word)
  then have ih: "re_sub_numbers repl (Some d) (ds @ rest) =
           bind_result (re_sub_numbers repl (last_opt (Some d) ds) rest) (\<lambda>out. Inr (ds @ out))"
    using Cons.IH[of "Some d"] Cons.prems by simp
  have "last_opt (Some d) ds = last_opt p (d # ds)" by (simp add: last_opt_def)
  with m ih show ?case
    by (simp add: bind_result_def split: sum.splits)
qed

lemma re_sub_numbers_append:
  "u = [] \<or> \<not> is_digit (last u) \<Longrightarrow>
     re_sub_numbers repl p (u @ x) =
       bind_result (re_sub_numbers repl p u) (\<lambda>a.
       bind_result (re_sub_numbers repl (last_opt p u) x) (\<lambda>b. Inr (a @ b)))"
proof (induction repl p u rule: re_sub_numbers.induct)
  case (1 repl prev)
  then show ?case by (simp add: bind_result_def last_opt_def split: sum.splits)
next
  case (2 repl prev c cs)
  from "2.prems" have nd: "\<not> is_digit (last (c # cs))" by simp
  have ne: "c # cs \<noteq> []" by simp
  have m: "match_number prev ((c # cs) @ x) = match_number prev (c # cs)"
    using ne nd by (rule match_number_append_nondigit)
  show ?case
  proof (cases "match_number prev (c # cs)")
    case None
    have cond: "cs = [] \<or> \<not> is_digit (last cs)" using nd by (cases cs) auto
    have lo: "last_opt (Some c) cs = last_opt prev (c # cs)" by (simp add: last_opt_def)
    from "2.IH"(1)[OF None cond] None m lo show ?thesis
      by (simp add: bind_result_def split: sum.splits)
  next
    case (Some k)
    then have k: "k = run_len (c # cs)" "0 < k" using match_number_length by blast+
    have klt: "k < length (c # cs)"
      using k(1) run_len_append_nondigit(2)[OF ne nd] by simp
    then have dne: "drop k (c # cs) \<noteq> []" by simp
    have lastd: "last (drop k (c # cs)) = last (c # cs)" using klt by simp
    have cond: "drop k (c # cs) = [] \<or> \<not> is_digit (last (drop k (c # cs)))"
      using nd lastd by simp
    have lo: "last_opt (char_at (c # cs) (k - 1)) (drop k (c # cs)) = last_opt prev (c # cs)"
      using dne lastd by (simp add: last_opt_def)
    have tk: "take k ((c # cs) @ x) = take k (c # cs)"
      using klt by (rule take_append_lt)
    have dk: "drop k ((c # cs) @ x) = drop k (c # cs) @ x"
      using klt by (rule drop_append_lt)
    have "k - 1 < length (c # cs)" using klt by simp
    then have ca: "char_at ((c # cs) @ x) (k - 1) = char_at (c # cs) (k - 1)"
      by (rule char_at_append_lt)
    show ?thesis
    proof (cases "repl (take k (c # cs))")
      case (Inl e)
      with Some m tk show ?thesis
        using tk by (simp add: bind_result_def del: take_Cons' split: sum.splits)
    next
      case (Inr w)
      from "2.IH"(2)[OF Some Inr cond] Some m tk dk ca lo Inr show ?thesis
        by (simp add: bind_result_def split: sum.splits)
    qed
  qed
qed

lemma run_induct [case_names Nil Other Run]:
  assumes "P []"
    and "\<And>c cs. \<not> is_digit c \<Longrightarrow> P cs \<Longrightarrow> P (c # cs)"
    and "\<And>ds rest. ds \<noteq> [] \<Longrightarrow> \<forall>c\<in>set ds. is_digit c \<Longrightarrow>
           rest = [] \<or> \<not> is_digit (hd rest) \<Longrightarrow> P rest \<Longrightarrow> P (ds @ rest)"
  shows "P s"
proof (induction s rule: length_induct)
  case (1 s)
  show ?case
  proof (cases s)
    case Nil
    with assms(1) show ?thesis by simp
  next
    case (Cons c cs)
    show ?thesis
    proof (cases "is_digit c")
      case False
      moreover have "P cs" using 1 Cons by simp
      ultimately show ?thesis unfolding Cons by (rule assms(2))
    next
      case True
      define ds where "ds = takeWhile is_digit s"
      define rest where "rest = dropWhile is_digit s"
      have s: "s = ds @ rest" by (simp add: ds_def rest_def)
      have ne: "ds \<noteq> []" using True Cons by (simp add: ds_def)
      have dig: "\<forall>c\<in>set ds. is_digit c" by (auto simp: ds_def dest: set_takeWhileD)
      have hd: "rest = [] \<or> \<not> is_digit (hd rest)"
        using hd_dropWhile[of is_digit s] by (auto simp: rest_def)
      have "length rest < length s" using ne by (simp add: s)
      with 1 have "P rest" by simp
      with ne dig hd have "P (ds @ rest)" by (rule assms(3))
      then show ?thesis by (simp only: s[symmetric])
    qed
  qed
qed

section \<open>What the scan writes\<close>

lemma no_digits_after_replacing:
  "\<forall>ds w. repl ds = Inr w \<longrightarrow> (\<forall>c\<in>set w. \<not> is_digit c) \<Longrightarrow>
   successively isolated s \<Longrightarrow> \<not> is_word_opt p \<or> s = [] \<or> \<not> is_digit (hd s) \<Longrightarrow>
   re_sub_numbers repl p s = Inr out \<Longrightarrow> \<forall>c\<in>set out. \<not> is_digit c"
proof (induction repl p s arbitrary: out rule: re_sub_numbers.induct)
  case (1 repl prev)
  then show ?case by simp
next
  case (2 repl prev c cs)
  note words = "2.prems"(1) and iso = "2.prems"(2) and start = "2.prems"(3)
    and result = "2.prems"(4)
  show ?case
  proof (cases "match_number prev (c # cs)")
    case None
    have nd: "\<not> is_digit c"
    proof
      assume d: "is_digit c"
      then have pos: "0 < run_len (c # cs)" by (simp add: run_len_Cons)
      with iso have "\<not> is_word_opt (char_at (c # cs) (run_len (c # cs)))"
        by (rule isolated_after_run)
      moreover from start d have "\<not> is_word_opt prev" by simp
      ultimately have "match_number prev (c # cs) \<noteq> None"
        using pos by (simp add: match_number_iff)
      with None show False by simp
    qed
    from result obtain out' where
      out': "re_sub_numbers repl (Some c) cs = Inr out'" "out = c # out'"
      unfolding re_sub_numbers_at_nomatch[OF None] by (auto simp: bind_result_Inr)
    have iso': "successively isolated cs"
      using iso by (auto simp: successively_Cons)
    have start': "\<not> is_word_opt (Some c) \<or> cs = [] \<or> \<not> is_digit (hd cs)"
    proof (cases cs)
      case Nil
      then show ?thesis by simp
    next
      case (Cons b bs)
      with iso have "isolated c b" by simp
      with nd Cons show ?thesis by (auto simp: isolated_def is_word_opt_def)
    qed
    from "2.IH"(1)[OF None words iso' start' out'(1)] nd out'(2)
    show ?thesis by simp
  next
    case (Some k)
    then have k: "k = run_len (c # cs)" using match_number_length by blast
    from result obtain w out' where
      w: "repl (take k (c # cs)) = Inr w"
      and out': "re_sub_numbers repl (char_at (c # cs) (k - 1)) (drop k (c # cs)) = Inr out'"
        "out = w @ out'"
      unfolding re_sub_numbers_at_match[OF Some] by (auto simp: bind_result_Inr)
    have iso': "successively isolated (drop k (c # cs))"
      using iso by (rule successively_drop)
    have start': "\<not> is_word_opt (char_at (c # cs) (k - 1)) \<or> drop k (c # cs) = []
        \<or> \<not> is_digit (hd (drop k (c # cs)))"
      using drop_run_head[of "c # cs"] unfolding k by blast
    from "2.IH"(2)[OF Some w words iso' start' out'(1)]
    have "\<forall>c\<in>set out'. \<not> is_digit c" .
    moreover from words w have "\<forall>c\<in>set w. \<not> is_digit c" by blast
    ultimately show ?thesis using out'(2) by auto
  qed
qed

lemma re_sub_numbers_keeps:
  assumes words: "\<forall>ds w. repl ds = Inr w \<longrightarrow> (\<forall>c\<in>set w. P c)"
  shows "re_sub_numbers repl p s = Inr out \<Longrightarrow> \<forall>c\<in>set s. P c \<Longrightarrow> \<forall>c\<in>set out. P c"
proof (induction s arbitrary: p out rule: run_induct)
  case Nil
  then show ?case by simp
next
  case (Other c cs)
  from Other.prems(1) obtain o' where o': "re_sub_numbers repl (Some c) cs = Inr o'" "out = c # o'"
    using Other.hyps by (auto simp: match_number_no_digit split: sum.splits)
  from Other.IH[OF o'(1)] Other.prems(2) o'(2) show ?case by simp
next
  case (Run ds rest)
  have rest: "\<forall>c\<in>set rest. P c" and dsP: "\<forall>c\<in>set ds. P c" using Run.prems(2) by simp_all
  show ?case
  proof (cases "\<not> is_word_opt p \<and> (rest = [] \<or> \<not> is_word (hd rest))")
    case True
    then have "re_sub_numbers repl p (ds @ rest) =
           bind_result (repl ds) (\<lambda>w.
           bind_result (re_sub_numbers repl (Some (last ds)) rest) (\<lambda>out. Inr (w @ out)))"
      using Run.hyps(1,2) by (intro re_sub_numbers_matched_run) simp_all
    with Run.prems(1) obtain w o' where w: "repl ds = Inr w"
      and o': "re_sub_numbers repl (Some (last ds)) rest = Inr o'" "out = w @ o'"
      by (auto simp: bind_result_Inr)
    from words w have "\<forall>c\<in>set w. P c" by blast
    with Run.IH[OF o'(1) rest] o'(2) show ?thesis by auto
  next
    case False
    then have cond: "is_word_opt p \<or> (rest \<noteq> [] \<and> is_word (hd rest))" by blast
    have "re_sub_numbers repl p (ds @ rest) =
           bind_result (re_sub_numbers repl (last_opt p ds) rest) (\<lambda>out. Inr (ds @ out))"
      using Run.hyps(2,3) cond by (rule re_sub_numbers_unmatched_run)
    with Run.prems(1) obtain o' where
      o': "re_sub_numbers repl (last_opt p ds) rest = Inr o'" "out = ds @ o'"
      by (auto simp: bind_result_Inr)
    from Run.IH[OF o'(1) rest] dsP o'(2) show ?thesis by auto
  qed
qed

lemma unmatched_no_digits:
  "\<forall>c\<in>set w. \<not> is_digit c \<Longrightarrow> unmatched p (w @ t) = unmatched (last_opt p w) t"
proof (induction w arbitrary: p)
  case Nil
  then show ?case by (simp add: last_opt_def)
next
  case (Cons c w)
  then have "unmatched (Some c) (w @ t) = unmatched (last_opt (Some c) w) t" by simp
  moreover have "last_opt (Some c) w = last_opt p (c # w)" by (simp add: last_opt_def)
  ultimately show ?case using Cons.prems by (simp add: match_number_no_digit)
qed

lemma unmatched_prev_any:
  "t = [] \<or> \<not> is_digit (hd t) \<Longrightarrow> unmatched p t = unmatched q t"
  by (cases t) (auto simp: match_number_no_digit)

lemma unmatched_digits:
  assumes "\<forall>c\<in>set ds. is_digit c" "t = [] \<or> \<not> is_digit (hd t)"
    and "is_word_opt p \<or> (t \<noteq> [] \<and> is_word (hd t))"
  shows "unmatched p (ds @ t) = unmatched (last_opt p ds) t"
  using assms
proof (induction ds arbitrary: p)
  case Nil
  then show ?case by (simp add: last_opt_def)
next
  case (Cons d ds)
  have len: "run_len ((d # ds) @ t) = length (d # ds)"
    using Cons.prems(1,2) by (rule run_len_digits)
  have "is_word_opt p \<or> is_word_opt (char_at ((d # ds) @ t) (length (d # ds)))"
    using Cons.prems(3) unfolding char_at_append_length by (auto simp: is_word_opt_def)
  with len have m: "match_number p (d # ds @ t) = None"
    by (auto simp: match_number_iff)
  have "is_word_opt (Some d)" using Cons.prems(1) by (simp add: is_word_opt_def digit_is_word)
  then have "unmatched (Some d) (ds @ t) = unmatched (last_opt (Some d) ds) t"
    using Cons.IH[of "Some d"] Cons.prems by simp
  moreover have "last_opt (Some d) ds = last_opt p (d # ds)" by (simp add: last_opt_def)
  ultimately show ?case using m by simp
qed

lemma unmatched_fixed: "unmatched p s \<Longrightarrow> re_sub_numbers repl p s = Inr s"
  by (induction s arbitrary: p) simp_all

lemma replaced_text_unmatched:
  assumes words: "\<forall>ds w. repl ds = Inr w \<longrightarrow> (\<forall>c\<in>set w. \<not> is_digit c)"
  shows "re_sub_numbers repl p s = Inr out \<Longrightarrow> unmatched p out"
proof (induction s arbitrary: p out rule: run_induct)
  case Nil
  then show ?case by simp
next
  case (Other c cs)
  from Other.prems obtain o' where o': "re_sub_numbers repl (Some c) cs = Inr o'" "out = c # o'"
    using Other.hyps by (auto simp: match_number_no_digit split: sum.splits)
  from Other.IH[OF o'(1)] Other.hyps o'(2) show ?case
    by (simp add: match_number_no_digit)
next
  case (Run ds rest)
  show ?case
  proof (cases "\<not> is_word_opt p \<and> (rest = [] \<or> \<not> is_word (hd rest))")
    case True
    then have "re_sub_numbers repl p (ds @ rest) =
           bind_result (repl ds) (\<lambda>w.
           bind_result (re_sub_numbers repl (Some (last ds)) rest) (\<lambda>out. Inr (w @ out)))"
      using Run.hyps(1,2) by (intro re_sub_numbers_matched_run) simp_all
    with Run.prems obtain w o' where w: "repl ds = Inr w"
      and o': "re_sub_numbers repl (Some (last ds)) rest = Inr o'" "out = w @ o'"
      by (auto simp: bind_result_Inr)
    from words w have nd: "\<forall>c\<in>set w. \<not> is_digit c" by blast
    have "o' = [] \<or> \<not> is_digit (hd o')"
      using re_sub_numbers_head[OF Run.hyps(3) o'(1)] Run.hyps(3) by auto
    then have "unmatched (last_opt p w) o' = unmatched (Some (last ds)) o'"
      by (rule unmatched_prev_any)
    with Run.IH[OF o'(1)] show ?thesis
      unfolding o'(2) unmatched_no_digits[OF nd] by simp
  next
    case False
    then have cond: "is_word_opt p \<or> (rest \<noteq> [] \<and> is_word (hd rest))" by blast
    have "re_sub_numbers repl p (ds @ rest) =
           bind_result (re_sub_numbers repl (last_opt p ds) rest) (\<lambda>out. Inr (ds @ out))"
      using Run.hyps(2,3) cond by (rule re_sub_numbers_unmatched_run)
    with Run.prems obtain o' where
      o': "re_sub_numbers repl (last_opt p ds) rest = Inr o'" "out = ds @ o'"
      by (auto simp: bind_result_Inr)
    note h = re_sub_numbers_head[OF Run.hyps(3) o'(1)]
    have t: "o' = [] \<or> \<not> is_digit (hd o')" using h Run.hyps(3) by auto
    have c: "is_word_opt p \<or> (o' \<noteq> [] \<and> is_word (hd o'))" using h cond by auto
    from Run.IH[OF o'(1)] show ?thesis
      unfolding o'(2) unmatched_digits[OF Run.hyps(2) t c] .
  qed
qed

lemma replaced_text_head:
  assumes words: "\<forall>ds w. repl ds = Inr w \<longrightarrow> (\<forall>c\<in>set w. \<not> is_digit c)"
    and "re_sub_numbers repl q s = Inr out"
  shows "out = [] \<or> (s \<noteq> [] \<and> hd out = hd s) \<or> (\<not> is_word_opt q \<and> \<not> is_digit (hd out))"
proof (cases s)
  case Nil
  with assms(2) show ?thesis by simp
next
  case (Cons c cs)
  show ?thesis
  proof (cases "match_number q (c # cs)")
    case None
    with assms(2) Cons show ?thesis
      by (auto simp: re_sub_numbers_at_nomatch bind_result_Inr simp del: re_sub_numbers.simps)
  next
    case (Some k)
    then have k: "k = run_len (c # cs)" and nw: "\<not> is_word_opt q"
      by (auto simp: match_number_iff split: if_splits)
    from assms(2) obtain w o' where w: "repl (take k (c # cs)) = Inr w"
      and o': "re_sub_numbers repl (char_at (c # cs) (k - 1)) (drop k (c # cs)) = Inr o'"
        "out = w @ o'"
      unfolding Cons re_sub_numbers_at_match[OF Some] by (auto simp: bind_result_Inr)
    from words w have nd: "\<forall>c\<in>set w. \<not> is_digit c" by blast
    have rest: "drop k (c # cs) = [] \<or> \<not> is_digit (hd (drop k (c # cs)))"
      unfolding k by (rule drop_run_head)
    show ?thesis
    proof (cases "w = []")
      case False
      with nd have "\<not> is_digit (hd w)" by simp
      with False nw o'(2) show ?thesis by simp
    next
      case True
      from re_sub_numbers_head[OF rest o'(1)] rest
      have "o' = [] \<or> \<not> is_digit (hd o')" by auto
      with True nw o'(2) show ?thesis by auto
    qed
  qed
qed

lemma replaced_text_apart:
  assumes words: "\<forall>ds w. repl ds = Inr w \<longrightarrow> (\<forall>c\<in>set w. \<not> is_digit c)"
  shows "re_sub_numbers repl p s = Inr out \<Longrightarrow> successively apart s \<Longrightarrow> successively apart out"
proof (induction s arbitrary: p out rule: run_induct)
  case Nil
  then show ?case by simp
next
  case (Other c cs)
  from Other.prems(1) obtain o' where o': "re_sub_numbers repl (Some c) cs = Inr o'" "out = c # o'"
    using Other.hyps by (auto simp: match_number_no_digit split: sum.splits)
  have tl: "successively apart cs" using Other.prems(2) by (auto simp: successively_Cons)
  have ih: "successively apart o'" using Other.IH[OF o'(1) tl] .
  have "o' = [] \<or> apart c (hd o')"
  proof -
    from replaced_text_head[OF words o'(1)]
    consider "o' = []" | "cs \<noteq> []" "hd o' = hd cs"
      | "\<not> is_word_opt (Some c)" "\<not> is_digit (hd o')" by blast
    then show ?thesis
    proof cases
      case 1
      then show ?thesis by simp
    next
      case 2
      with Other.prems(2) show ?thesis by (auto simp: successively_Cons)
    next
      case 3
      then show ?thesis using Other.hyps by (simp add: apart_not_digits)
    qed
  qed
  with ih show ?case unfolding o'(2) by (auto simp: successively_Cons)
next
  case (Run ds rest)
  from Run.prems(2) have ap_ds: "successively apart ds" and ap_rest: "successively apart rest"
    and joint: "rest = [] \<or> apart (last ds) (hd rest)"
    using Run.hyps(1) by (auto simp: successively_append_iff)
  show ?case
  proof (cases "\<not> is_word_opt p \<and> (rest = [] \<or> \<not> is_word (hd rest))")
    case True
    then have "re_sub_numbers repl p (ds @ rest) =
           bind_result (repl ds) (\<lambda>w.
           bind_result (re_sub_numbers repl (Some (last ds)) rest) (\<lambda>out. Inr (w @ out)))"
      using Run.hyps(1,2) by (intro re_sub_numbers_matched_run) simp_all
    with Run.prems(1) obtain w o' where w: "repl ds = Inr w"
      and o': "re_sub_numbers repl (Some (last ds)) rest = Inr o'" "out = w @ o'"
      by (auto simp: bind_result_Inr)
    from words w have nd: "\<forall>c\<in>set w. \<not> is_digit c" by blast
    then have ap_w: "successively apart w" by (rule successively_apart_no_digits)
    have hd_o: "o' = [] \<or> \<not> is_digit (hd o')"
      using re_sub_numbers_head[OF Run.hyps(3) o'(1)] Run.hyps(3) by auto
    have "w = [] \<or> o' = [] \<or> apart (last w) (hd o')"
    proof (cases "w = [] \<or> o' = []")
      case True
      then show ?thesis by blast
    next
      case False
      then have "\<not> is_digit (last w)" using nd by simp
      moreover from False hd_o have "\<not> is_digit (hd o')" by simp
      ultimately show ?thesis by (simp add: apart_not_digits)
    qed
    with ap_w Run.IH[OF o'(1) ap_rest] show ?thesis
      unfolding o'(2) by (simp add: successively_append_iff)
  next
    case False
    then have cond: "is_word_opt p \<or> (rest \<noteq> [] \<and> is_word (hd rest))" by blast
    have "re_sub_numbers repl p (ds @ rest) =
           bind_result (re_sub_numbers repl (last_opt p ds) rest) (\<lambda>out. Inr (ds @ out))"
      using Run.hyps(2,3) cond by (rule re_sub_numbers_unmatched_run)
    with Run.prems(1) obtain o' where
      o': "re_sub_numbers repl (last_opt p ds) rest = Inr o'" "out = ds @ o'"
      by (auto simp: bind_result_Inr)
    from re_sub_numbers_head[OF Run.hyps(3) o'(1)] joint
    have "o' = [] \<or> apart (last ds) (hd o')" by auto
    with ap_ds Run.IH[OF o'(1) ap_rest] show ?thesis
      unfolding o'(2) by (simp add: successively_append_iff)
  qed
qed

section \<open>The normaliser around one run of digits\<close>

lemma traducir_without_digits:
  "\<forall>c\<in>set texto. \<not> is_digit c \<Longrightarrow> traducir_numero_a_texto rt texto = Inr texto"
  by (simp add: traducir_numero_a_texto_def re_sub_letter_digit_id
      re_sub_digit_letter_id re_sub_numbers_id)

lemma traducir_insert_spaces:
  "traducir_numero_a_texto rt s = re_sub_numbers (reemplazar_numero rt) None (insert_spaces s)"
  by (simp add: traducir_numero_a_texto_def two_passes_insert_spaces)

lemma traducir_around_run:
  assumes "ds \<noteq> []" "\<forall>c\<in>set ds. is_digit c"
    and "u = [] \<or> number_edge (last u)" "v = [] \<or> number_edge (hd v)"
  shows "traducir_numero_a_texto rt (u @ ds @ v) =
           bind_result (traducir_numero_a_texto rt u) (\<lambda>a.
           bind_result (reemplazar_numero rt ds) (\<lambda>w.
           bind_result (traducir_numero_a_texto rt v) (\<lambda>b.
             Inr (a @ space_if_letter (u \<noteq> [] \<and> is_ascii_letter (last u)) @ w @
                  space_if_letter (v \<noteq> [] \<and> is_ascii_letter (hd v)) @ b))))"
proof -
  define repl where "repl = reemplazar_numero rt"
  define U where "U = insert_spaces u"
  define V where "V = insert_spaces v"
  define gl where "gl = space_if_letter (u \<noteq> [] \<and> is_ascii_letter (last u))"
  define gr where "gr = space_if_letter (v \<noteq> [] \<and> is_ascii_letter (hd v))"
  have shape: "insert_spaces (u @ ds @ v) = (U @ gl) @ ds @ gr @ V"
    unfolding U_def V_def gl_def gr_def using assms by (rule insert_spaces_around_run)
  have U_last: "U \<noteq> [] \<Longrightarrow> last U = last u \<and> u \<noteq> []"
    by (auto simp: U_def insert_spaces_Nil_iff insert_spaces_last)
  have V_hd: "V = [] \<or> (v \<noteq> [] \<and> hd V = hd v)"
    by (auto simp: V_def insert_spaces_Nil_iff insert_spaces_head)
  \<comment> \<open>the text before the run\<close>
  have left_nd: "U @ gl = [] \<or> \<not> is_digit (last (U @ gl))"
  proof (cases "gl = []")
    case True
    with U_last assms(3) show ?thesis by (auto dest: number_edge_not_digit)
  next
    case False
    then have "gl = '' ''" by (simp add: gl_def space_if_letter_def split: if_splits)
    then show ?thesis by (simp add: space_classes)
  qed
  have left_nw: "\<not> is_word_opt (last_opt None (U @ gl))"
  proof (cases "gl = []")
    case True
    show ?thesis
    proof (cases "U = []")
      case True
      with \<open>gl = []\<close> show ?thesis by (simp add: last_opt_def is_word_opt_def)
    next
      case False
      with U_last have lu: "last U = last u" "u \<noteq> []" by simp_all
      with \<open>gl = []\<close> have "\<not> is_ascii_letter (last u)"
        by (simp add: gl_def space_if_letter_def split: if_splits)
      with assms(3) lu have "\<not> is_word (last u)" by (simp add: number_edge_def)
      with False lu \<open>gl = []\<close> show ?thesis by (simp add: last_opt_def is_word_opt_def)
    qed
  next
    case False
    then have "gl = '' ''" by (simp add: gl_def space_if_letter_def split: if_splits)
    then show ?thesis by (simp add: last_opt_def is_word_opt_def space_classes)
  qed
  have left: "re_sub_numbers repl None (U @ gl) =
                bind_result (re_sub_numbers repl None U) (\<lambda>a. Inr (a @ gl))"
  proof (cases "gl = []")
    case True
    then show ?thesis by (simp add: bind_result_def split: sum.splits)
  next
    case False
    then have g: "gl = '' ''" by (simp add: gl_def space_if_letter_def split: if_splits)
    have "U = [] \<or> \<not> is_digit (last U)"
      using U_last assms(3) by (auto dest: number_edge_not_digit)
    then have "re_sub_numbers repl None (U @ '' '') =
        bind_result (re_sub_numbers repl None U) (\<lambda>a.
        bind_result (re_sub_numbers repl (last_opt None U) '' '') (\<lambda>b. Inr (a @ b)))"
      by (rule re_sub_numbers_append)
    moreover have "re_sub_numbers repl (last_opt None U) '' '' = Inr '' ''"
      by (simp add: match_number_no_digit space_classes)
    ultimately show ?thesis
      unfolding g by (simp add: bind_result_def del: re_sub_numbers.simps)
  qed
  \<comment> \<open>the text after the run\<close>
  have right_nw: "gr @ V = [] \<or> \<not> is_word (hd (gr @ V))"
  proof (cases "gr = []")
    case True
    then have "v = [] \<or> \<not> is_ascii_letter (hd v)"
      by (simp add: gr_def space_if_letter_def split: if_splits)
    with assms(4) V_hd True show ?thesis by (auto simp: number_edge_def)
  next
    case False
    then have "gr = '' ''" by (simp add: gr_def space_if_letter_def split: if_splits)
    then show ?thesis by (simp add: space_classes)
  qed
  have right: "re_sub_numbers repl (Some (last ds)) (gr @ V) =
                 bind_result (re_sub_numbers repl None V) (\<lambda>b. Inr (gr @ b))"
  proof (cases "gr = []")
    case True
    have "V = [] \<or> \<not> is_digit (hd V)"
      using V_hd assms(4) by (auto dest: number_edge_not_digit)
    then have "re_sub_numbers repl (Some (last ds)) V = re_sub_numbers repl None V"
      by (rule re_sub_numbers_prev_any)
    with True show ?thesis by (simp add: bind_result_def split: sum.splits)
  next
    case False
    then have g: "gr = '' ''" by (simp add: gr_def space_if_letter_def split: if_splits)
    show ?thesis unfolding g
      by (simp add: re_sub_numbers_space del: re_sub_numbers.simps)
  qed
  have run: "re_sub_numbers repl (last_opt None (U @ gl)) (ds @ gr @ V) =
           bind_result (repl ds) (\<lambda>w.
           bind_result (re_sub_numbers repl (Some (last ds)) (gr @ V)) (\<lambda>out. Inr (w @ out)))"
    using assms(1,2) left_nw right_nw by (rule re_sub_numbers_matched_run)
  have "re_sub_numbers repl None ((U @ gl) @ ds @ gr @ V) =
          bind_result (re_sub_numbers repl None (U @ gl)) (\<lambda>a.
          bind_result (re_sub_numbers repl (last_opt None (U @ gl)) (ds @ gr @ V)) (\<lambda>b.
            Inr (a @ b)))"
    using left_nd by (rule re_sub_numbers_append)
  then have "re_sub_numbers repl None ((U @ gl) @ ds @ gr @ V) =
          bind_result (re_sub_numbers repl None U) (\<lambda>a.
          bind_result (repl ds) (\<lambda>w.
          bind_result (re_sub_numbers repl None V) (\<lambda>b. Inr (a @ gl @ w @ gr @ b))))"
    unfolding left run right by (simp add: bind_result_def split: sum.splits)
  then show ?thesis
    unfolding traducir_insert_spaces shape
    by (simp only: repl_def U_def V_def gl_def gr_def)
qed

lemma normalize_around_run:
  assumes "ds \<noteq> []" "\<forall>c\<in>set ds. is_digit c"
    and "pre = [] \<or> number_edge (last pre)" "post = [] \<or> number_edge (hd post)"
  shows "normalize_text rt (pre @ ds @ post) =
           bind_result (normalize_text rt pre) (\<lambda>a.
           bind_result (reemplazar_numero rt ds) (\<lambda>w.
           bind_result (normalize_text rt post) (\<lambda>b.
             Inr (a @ space_if_letter (pre \<noteq> [] \<and> is_ascii_letter (last pre)) @ w @
                  space_if_letter (post \<noteq> [] \<and> is_ascii_letter (hd post)) @ b))))"
proof -
  have u: "lower pre = [] \<or> number_edge (last (lower pre))"
    using assms(3) by (cases "pre = []") (simp_all add: lower_Nil_iff lower_last lower_char_edge)
  have v: "lower post = [] \<or> number_edge (hd (lower post))"
    using assms(4) by (cases "post = []") (simp_all add: lower_Nil_iff lower_hd lower_char_edge)
  have l: "(lower pre \<noteq> [] \<and> is_ascii_letter (last (lower pre)))
             = (pre \<noteq> [] \<and> is_ascii_letter (last pre))"
    by (cases "pre = []") (simp_all add: lower_Nil_iff lower_last lower_char_letter)
  have r: "(lower post \<noteq> [] \<and> is_ascii_letter (hd (lower post)))
             = (post \<noteq> [] \<and> is_ascii_letter (hd post))"
    by (cases "post = []") (simp_all add: lower_Nil_iff lower_hd lower_char_letter)
  have "lower (pre @ ds @ post) = lower pre @ ds @ lower post"
    using assms(2) by (simp add: lower_append lower_digits)
  then show ?thesis
    unfolding normalize_text_def
    using traducir_around_run[OF assms(1,2) u v, of rt] by (simp only: l r)
qed

lemma normalize_digits_only:
  assumes "ds \<noteq> []" "\<forall>c\<in>set ds. is_digit c"
  shows "normalize_text rt ds = reemplazar_numero rt ds"
proof -
  have e: "normalize_text rt [] = Inr []"
    by (simp add: normalize_text_def lower_def traducir_numero_a_texto_def)
  have "normalize_text rt ([] @ ds @ []) =
           bind_result (normalize_text rt []) (\<lambda>a.
           bind_result (reemplazar_numero rt ds) (\<lambda>w.
           bind_result (normalize_text rt []) (\<lambda>b.
             Inr (a @ space_if_letter False @ w @ space_if_letter False @ b))))"
    using normalize_around_run[OF assms, of "[]" "[]" rt] by simp
  then show ?thesis
    unfolding e
    by (cases "reemplazar_numero rt ds") (simp_all add: bind_result_def space_if_letter_def)
qed

lemma foldl_decimal:
  "foldl (\<lambda>acc c. 10 * acc + digit_value c) a ds = a * 10 ^ length ds + decimal_value ds"
  by (induction ds arbitrary: a) (simp_all add: algebra_simps)

lemma py_int_decimal:
  "length ds \<le> 640 \<or> int_max_str_digits rt = 0 \<or> length ds \<le> int_max_str_digits rt \<Longrightarrow>
     py_int rt ds = Inr (decimal_value ds)"
  by (auto simp: py_int_def foldl_decimal)

lemma py_int_ValueError:
  "640 < length ds \<Longrightarrow> 0 < int_max_str_digits rt \<Longrightarrow> int_max_str_digits rt < length ds \<Longrightarrow>
     py_int rt ds = Inl ValueError"
  by (simp add: py_int_def)

lemma decimal_value_leading_zeros:
  "decimal_value (replicate k (CHR ''0'') @ ds) = decimal_value ds"
  by (induction k) (simp_all add: digit_value_def)

lemma decimal_value_nonneg: "\<forall>c\<in>set ds. is_digit c \<Longrightarrow> 0 \<le> decimal_value ds"
  by (induction ds) (auto simp: digit_value_def is_digit_def Let_def)

section \<open>Every run spelled out\<close>

lemma spell_runs_other:
  "\<not> is_digit c \<Longrightarrow>
     spell_runs repl (c # cs) = bind_result (spell_runs repl cs) (\<lambda>out. Inr (c # out))"
  by (simp add: bind_result_def)

lemma spell_runs_run:
  assumes "ds \<noteq> []" "\<forall>c\<in>set ds. is_digit c" "rest = [] \<or> \<not> is_digit (hd rest)"
  shows "spell_runs repl (ds @ rest) =
           bind_result (repl ds) (\<lambda>w.
           bind_result (spell_runs repl rest) (\<lambda>out. Inr (w @ out)))"
proof -
  obtain d ds' where ds: "ds = d # ds'" using assms(1) by (cases ds) auto
  have d: "is_digit d" using assms(2) ds by simp
  have tk: "takeWhile is_digit (ds @ rest) = ds"
    using assms(2,3) by (cases rest) (simp_all add: takeWhile_append2)
  have dk: "dropWhile is_digit (ds @ rest) = rest"
    using assms(2,3) by (cases rest) (simp_all add: dropWhile_append2)
  have "spell_runs repl (d # ds' @ rest) =
      (case repl (takeWhile is_digit (d # ds' @ rest)) of
              Inl e \<Rightarrow> Inl e
            | Inr w \<Rightarrow>
                (case spell_runs repl (dropWhile is_digit (d # ds' @ rest)) of
                   Inl e \<Rightarrow> Inl e
                 | Inr out \<Rightarrow> Inr (w @ out)))"
    using d by (simp only: spell_runs.simps if_True)
  then show ?thesis
    using tk dk unfolding ds by (simp only: append_Cons bind_result_def)
qed

lemma scan_spells_every_run:
  "successively isolated s \<Longrightarrow> \<not> is_word_opt p \<or> s = [] \<or> \<not> is_digit (hd s) \<Longrightarrow>
     re_sub_numbers repl p s = spell_runs repl s"
proof (induction s arbitrary: p rule: run_induct)
  case Nil
  show ?case by simp
next
  case (Other c cs)
  have iso: "successively isolated cs"
    using Other.prems(1) by (auto simp: successively_Cons)
  have start: "\<not> is_word_opt (Some c) \<or> cs = [] \<or> \<not> is_digit (hd cs)"
  proof (cases cs)
    case Nil
    then show ?thesis by simp
  next
    case (Cons b bs)
    with Other.prems(1) have "isolated c b" by simp
    with Other.hyps Cons show ?thesis by (auto simp: isolated_def is_word_opt_def)
  qed
  have "match_number p (c # cs) = None" using Other.hyps by (rule match_number_no_digit)
  then have "re_sub_numbers repl p (c # cs) =
      bind_result (re_sub_numbers repl (Some c) cs) (\<lambda>out. Inr (c # out))"
    by (rule re_sub_numbers_at_nomatch)
  also have "re_sub_numbers repl (Some c) cs = spell_runs repl cs"
    using iso start by (rule Other.IH)
  finally show ?case by (simp only: spell_runs_other[OF Other.hyps])
next
  case (Run ds rest)
  have d0: "is_digit (hd (ds @ rest))" using Run.hyps(1,2) by (cases ds) auto
  with Run.prems(2) Run.hyps(1) have nw: "\<not> is_word_opt p" by auto
  have iso: "successively isolated rest" and joint: "rest = [] \<or> isolated (last ds) (hd rest)"
    using Run.prems(1) Run.hyps(1) by (auto simp: successively_append_iff)
  have "is_digit (last ds)" using Run.hyps(1,2) by simp
  with joint Run.hyps(3) have after: "rest = [] \<or> \<not> is_word (hd rest)"
    by (auto simp: isolated_def)
  have "re_sub_numbers repl p (ds @ rest) =
           bind_result (repl ds) (\<lambda>w.
           bind_result (re_sub_numbers repl (Some (last ds)) rest) (\<lambda>out. Inr (w @ out)))"
    using Run.hyps(1,2) nw after by (rule re_sub_numbers_matched_run)
  moreover have "re_sub_numbers repl (Some (last ds)) rest = spell_runs repl rest"
    using iso Run.hyps(3) by (intro Run.IH) auto
  ultimately show ?case
    by (simp only: spell_runs_run[OF Run.hyps])
qed

lemma reemplazar_numero_spelled_out: "reemplazar_numero rt = spelled_out rt"
proof (rule ext)
  fix ds
  show "reemplazar_numero rt ds = spelled_out rt ds"
  proof (cases "length ds \<le> 640 \<or> int_max_str_digits rt = 0
      \<or> length ds \<le> int_max_str_digits rt")
    case True
    then show ?thesis
      by (simp add: reemplazar_numero_def spelled_out_def py_int_decimal bind_result_def)
  next
    case False
    then have "py_int rt ds = Inl ValueError" by (intro py_int_ValueError) auto
    with False show ?thesis
      by (simp add: reemplazar_numero_def spelled_out_def bind_result_def)
  qed
qed

section \<open>The Spanish spellings\<close>

lemma cardinal_small: "n < 10 ^ 6 \<Longrightarrow> cardinal k n = below_million n"
proof (induction k)
  case 0
  then show ?case by simp
next
  case (Suc k)
  have "(10::nat) ^ 6 \<le> 10 ^ (6 * Suc k)" by (rule power_increasing) simp_all
  with Suc.prems have "n div 10 ^ (6 * Suc k) = 0" by simp
  with Suc show ?case by (simp add: Let_def)
qed

lemma low_numwords_plain: "\<forall>w\<in>set low_numwords. list_all plain w"
  by (simp add: low_numwords_def plain_def is_digit_def lower_char_def)

lemma tens_numwords_plain: "\<forall>w\<in>set tens_numwords. list_all plain w"
  by (simp add: tens_numwords_def plain_def is_digit_def lower_char_def)

lemma high_numwords_plain: "\<forall>w\<in>set high_numwords. list_all plain w"
  by (simp add: high_numwords_def plain_def is_digit_def lower_char_def)

lemma low_plain: "n < 30 \<Longrightarrow> list_all plain (low_numwords ! n)"
proof -
  assume "n < 30"
  moreover have "length low_numwords = 30" by (simp add: low_numwords_def)
  ultimately have "low_numwords ! n \<in> set low_numwords" by (simp only: nth_mem)
  with low_numwords_plain show ?thesis by blast
qed

lemma tens_plain: "n < 7 \<Longrightarrow> list_all plain (tens_numwords ! n)"
proof -
  assume "n < 7"
  moreover have "length tens_numwords = 7" by (simp add: tens_numwords_def)
  ultimately have "tens_numwords ! n \<in> set tens_numwords" by (simp only: nth_mem)
  with tens_numwords_plain show ?thesis by blast
qed

lemma high_plain: "k < 4 \<Longrightarrow> list_all plain (high_numwords ! k)"
proof -
  assume "k < 4"
  moreover have "length high_numwords = 4" by (simp add: high_numwords_def)
  ultimately have "high_numwords ! k \<in> set high_numwords" by (simp only: nth_mem)
  with high_numwords_plain show ?thesis by blast
qed

lemma plain_letters:
  "plain (CHR '' '')" "plain (CHR ''y'')" "plain (CHR ''c'')" "plain (CHR ''i'')"
  "plain (CHR ''e'')" "plain (CHR ''n'')" "plain (CHR ''t'')" "plain (CHR ''o'')"
  "plain (CHR ''s'')" "plain (CHR ''q'')" "plain (CHR ''u'')" "plain (CHR ''v'')"
  "plain (CHR ''m'')" "plain (CHR ''l'')" "plain (CHR 0xF3)"
  by (simp_all add: plain_def is_digit_def lower_char_def)

lemma below_100_plain: "n < 100 \<Longrightarrow> list_all plain (below_100 n)"
proof -
  assume n: "n < 100"
  show ?thesis
  proof (cases "n < 30")
    case True
    then show ?thesis by (simp add: below_100_def low_plain)
  next
    case False
    with n have "n div 10 - 3 < 7" by simp
    then have t: "list_all plain (tens_numwords ! (n div 10 - 3))" by (rule tens_plain)
    have "n mod 10 < 30" by simp
    then have u: "list_all plain (low_numwords ! (n mod 10))" by (rule low_plain)
    from False t u show ?thesis
      by (simp add: below_100_def plain_letters)
  qed
qed

lemma hundreds_plain: "d < 10 \<Longrightarrow> list_all plain (hundreds d exact)"
proof -
  assume "d < 10"
  then have "d < 30" by simp
  then have "list_all plain (low_numwords ! d)" by (rule low_plain)
  then show ?thesis by (simp add: hundreds_def plain_letters)
qed

lemma below_1000_plain: "n < 1000 \<Longrightarrow> list_all plain (below_1000 n)"
proof -
  assume n: "n < 1000"
  show ?thesis
  proof (cases "n < 100")
    case True
    then show ?thesis by (simp add: below_1000_def below_100_plain)
  next
    case False
    from n have "n div 100 < 10" by simp
    then have h: "list_all plain (hundreds (n div 100) (n mod 100 = 0))"
      by (rule hundreds_plain)
    have "n mod 100 < 100" by simp
    then have u: "list_all plain (below_100 (n mod 100))" by (rule below_100_plain)
    from False h u show ?thesis
      by (simp add: below_1000_def plain_letters)
  qed
qed

lemma below_million_plain: "n < 10 ^ 6 \<Longrightarrow> list_all plain (below_million n)"
proof -
  assume n: "n < 10 ^ 6"
  show ?thesis
  proof (cases "n < 1000")
    case True
    then show ?thesis by (simp add: below_million_def below_1000_plain)
  next
    case False
    from n have "n div 1000 < 1000" by simp
    then have h: "list_all plain (below_1000 (n div 1000))" by (rule below_1000_plain)
    have "n mod 1000 < 1000" by simp
    then have u: "list_all plain (below_1000 (n mod 1000))" by (rule below_1000_plain)
    from False h u show ?thesis
      by (simp add: below_million_def plain_letters)
  qed
qed

lemma cardinal_Suc:
  "cardinal (Suc k) n =
     (if n div 10 ^ (6 * Suc k) = 0 then cardinal k n
      else (if n div 10 ^ (6 * Suc k) = 1
            then ''un '' @ high_numwords ! k @ ''ill'' @ [CHR 0xF3] @ ''n''
            else cardinal k (n div 10 ^ (6 * Suc k)) @ '' '' @ high_numwords ! k @ ''illones'') @
           (if n mod 10 ^ (6 * Suc k) = 0 then []
            else '' '' @ cardinal k (n mod 10 ^ (6 * Suc k))))"
  by (simp only: cardinal.simps Let_def)

lemma cardinal_plain:
  "k \<le> 4 \<Longrightarrow> n < 10 ^ (6 * Suc k) \<Longrightarrow> list_all plain (cardinal k n)"
proof (induction k arbitrary: n)
  case 0
  then show ?case by (simp add: below_million_plain)
next
  case (Suc k)
  define e :: nat where "e = 10 ^ (6 * Suc k)"
  have e_pos: "0 < e" by (simp add: e_def)
  from Suc.prems(1) have k: "k \<le> 4" "k < 4" by simp_all
  have ih: "\<And>m. m < e \<Longrightarrow> list_all plain (cardinal k m)"
    unfolding e_def using Suc.IH[OF k(1)] by blast
  have "n mod e < e" using e_pos by simp
  then have m: "list_all plain (cardinal k (n mod e))" by (rule ih)
  have "10 ^ (6 * Suc (Suc k)) = e * (10::nat) ^ 6"
    by (simp add: e_def power_add)
  with Suc.prems(2) have "n < e * 10 ^ 6" by simp
  then have "n div e < 10 ^ 6"
    using e_pos by (simp add: less_mult_imp_div_less mult.commute)
  moreover have "(10::nat) ^ 6 \<le> e" unfolding e_def by (rule power_increasing) simp_all
  ultimately have "n div e < e" by simp
  then have d: "list_all plain (cardinal k (n div e))" by (rule ih)
  have small: "n div e = 0 \<Longrightarrow> list_all plain (cardinal k n)"
    using e_pos by (intro ih) (simp add: div_eq_0_iff)
  have h: "list_all plain (high_numwords ! k)" using k(2) by (rule high_plain)
  show ?case
    unfolding cardinal_Suc e_def[symmetric]
    using m d small h by (simp add: plain_letters)
qed

lemma num2words_es_plain:
  assumes "num2words_es n = Inr w"
  shows "list_all plain w"
proof -
  from assms have small: "\<bar>n\<bar> < 10 ^ 27" by (simp add: num2words_es_def split: if_splits)
  then have "nat \<bar>n\<bar> < 10 ^ 27" by (simp add: nat_less_iff)
  then have "nat \<bar>n\<bar> < 10 ^ (6 * Suc 4)" by simp
  then have c: "list_all plain (cardinal 4 (nat \<bar>n\<bar>))"
    by (intro cardinal_plain) simp_all
  have w: "w = (if n < 0 then ''menos '' else []) @ cardinal 4 (nat \<bar>n\<bar>)"
    using assms small by (simp add: num2words_es_def split: if_splits)
  show ?thesis unfolding w using c by (simp add: plain_letters)
qed

lemma es_runtime_plain:
  "num2words es_runtime n = Inr w \<Longrightarrow> \<forall>c\<in>set w. \<not> is_digit c \<and> lower_char c = c"
  using num2words_es_plain[of n w]
  by (simp add: es_runtime_def list_all_iff plain_def)

lemma num2words_es_5: "num2words es_runtime 5 = Inr ''cinco''"
  by (simp add: es_runtime_def num2words_es_def cardinal_small below_million_def
      below_1000_def below_100_def low_numwords_def)

lemma num2words_es_7: "num2words es_runtime 7 = Inr ''siete''"
  by (simp add: es_runtime_def num2words_es_def cardinal_small below_million_def
      below_1000_def below_100_def low_numwords_def)

lemma num2words_es_123:
  "num2words es_runtime 123 = Inr (''ciento veintitr'' @ [CHR 0xE9] @ ''s'')"
  by (simp add: es_runtime_def num2words_es_def cardinal_small below_million_def
      below_1000_def below_100_def hundreds_def low_numwords_def)

lemma decimal_value_big: "decimal_value ''1000000000000000000000000000'' = 10 ^ 27"
  by (simp add: digit_value_def)

lemma reemplazar_big:
  "reemplazar_numero es_runtime ''1000000000000000000000000000'' = Inl OverflowError"
proof -
  have "py_int es_runtime ''1000000000000000000000000000'' =
          Inr (decimal_value ''1000000000000000000000000000'')"
    by (rule py_int_decimal) simp
  then have "py_int es_runtime ''1000000000000000000000000000'' = Inr (10 ^ 27)"
    by (simp only: decimal_value_big)
  then show ?thesis
    by (simp add: reemplazar_numero_def bind_result_def es_runtime_def num2words_es_def)
qed

section \<open>Concrete runs\<close>

lemma lower_Hola_Mundo: "lower ''Hola, Mundo!'' = ''hola, mundo!''"
  by code_simp

lemma lower_Buenos_dias: "lower ''Buenos D'' = ''buenos d''"
  by code_simp

lemma lower_Sala123B: "lower ''Sala123B'' = ''sala123b''"
  by code_simp

lemma lower_Agente: "lower ''Agente '' = ''agente ''"
  by code_simp

lemma lower_bang: "lower ''!'' = ''!''"
  by code_simp

lemma lower_son: "lower ''son '' = ''son ''"
  by code_simp

lemma lower_Tengo: "lower ''Tengo 5 gatos'' = ''tengo 5 gatos''"
  by code_simp

lemma lower_canal: "lower ''canal_5'' = ''canal_5''"
  by code_simp

lemma lower_Sala_canal: "lower ''Sala123B y canal_5'' = ''sala123b y canal_5''"
  by code_simp

lemma normalize_Tengo: "normalize_text es_runtime ''Tengo 5 gatos'' = Inr ''tengo cinco gatos''"
  by (simp add: normalize_text_def lower_Tengo traducir_numero_a_texto_def
      is_ascii_letter_def is_digit_def match_number_iff run_len_def char_at_def
      is_word_opt_def is_word_def reemplazar_numero_def py_int_def bind_result_def
      digit_value_def num2words_es_5)

lemma normalize_Sala_canal:
  "normalize_text es_runtime ''Sala123B y canal_5'' =
     Inr (''sala ciento veintitr'' @ [CHR 0xE9] @ ''s b y canal_5'')"
  by (simp add: normalize_text_def lower_Sala_canal traducir_numero_a_texto_def
      is_ascii_letter_def is_digit_def match_number_iff run_len_def char_at_def
      is_word_opt_def is_word_def reemplazar_numero_def py_int_def bind_result_def
      digit_value_def num2words_es_123)

lemma insert_spaces_Tengo: "insert_spaces ''tengo 5 gatos'' = ''tengo 5 gatos''"
  by (simp add: gap_def is_digit_def is_ascii_letter_def)

lemma lower_Hola: "lower ''Hola'' = ''hola''"
  by code_simp

lemma normalize_Hola: "normalize_text es_runtime ''Hola'' = Inr ''hola''"
  by (simp add: normalize_text_def lower_Hola traducir_without_digits is_digit_def)

section \<open>Digits in the output\<close>

text \<open>
  Claim C1, as the code has it.  Take an input in which no digit stands next to an
  underscore or to an alphanumeric character outside ASCII (every neighbour of a
  digit is a digit, an ASCII letter or not a word character).  What the normaliser
  does is this: in the lower-cased text, with the spaces of the boundary
  insertion, every maximal run of digits is replaced by its spelled-out form and
  every other character is kept; it raises when the conversion of a run raises.
  With an environment whose spellings contain no digit, whatever the normaliser
  returns contains no digit.
\<close>

theorem normalize_leaves_no_digit:
  assumes "successively digit_friendly text"
  shows "normalize_text rt text = spell_runs (spelled_out rt) (insert_spaces (lower text))
         \<and> ((\<forall>n w. num2words rt n = Inr w \<longrightarrow> (\<forall>c\<in>set w. \<not> is_digit c))
              \<and> normalize_text rt text = Inr out \<longrightarrow> (\<forall>c\<in>set out. \<not> is_digit c))"
proof (intro conjI impI)
  have iso: "successively isolated (insert_spaces (lower text))"
    using assms by (simp add: lower_friendly insert_spaces_isolated)
  have start: "\<not> is_word_opt None \<or> insert_spaces (lower text) = []
      \<or> \<not> is_digit (hd (insert_spaces (lower text)))"
    by (simp add: is_word_opt_def)
  from iso start have "re_sub_numbers (reemplazar_numero rt) None (insert_spaces (lower text)) =
      spell_runs (reemplazar_numero rt) (insert_spaces (lower text))"
    by (rule scan_spells_every_run)
  then show "normalize_text rt text =
      spell_runs (spelled_out rt) (insert_spaces (lower text))"
    by (simp only: normalize_text_def traducir_insert_spaces reemplazar_numero_spelled_out)
  assume h: "(\<forall>n w. num2words rt n = Inr w \<longrightarrow> (\<forall>c\<in>set w. \<not> is_digit c))
      \<and> normalize_text rt text = Inr out"
  then have words: "\<forall>ds w. reemplazar_numero rt ds = Inr w \<longrightarrow> (\<forall>c\<in>set w. \<not> is_digit c)"
    by (auto simp: reemplazar_numero_def bind_result_Inr)
  from h have
    "re_sub_numbers (reemplazar_numero rt) None (insert_spaces (lower text)) = Inr out"
    by (simp add: normalize_text_def traducir_insert_spaces)
  with words iso start show "\<forall>c\<in>set out. \<not> is_digit c"
    by (rule no_digits_after_replacing)
qed

theorem normalize_leaves_no_digit_witness:
  "normalize_text es_runtime ''Tengo 5 gatos'' = Inr ''tengo cinco gatos''
   \<and> spell_runs (spelled_out es_runtime) ''tengo 5 gatos'' = Inr ''tengo cinco gatos''
   \<and> filter is_digit ''tengo cinco gatos'' = []"
proof -
  have fr: "successively digit_friendly ''Tengo 5 gatos''"
    by (simp add: digit_friendly_def number_edge_def is_digit_def is_word_def
        is_ascii_letter_def)
  have words: "\<forall>n w. num2words es_runtime n = Inr w \<longrightarrow> (\<forall>c\<in>set w. \<not> is_digit c)"
    using es_runtime_plain by blast
  note inst = normalize_leaves_no_digit[OF fr, of es_runtime "''tengo cinco gatos''"]
  from inst have "spell_runs (spelled_out es_runtime) ''tengo 5 gatos''
      = Inr ''tengo cinco gatos''"
    by (simp only: normalize_Tengo lower_Tengo insert_spaces_Tengo)
  moreover from inst words normalize_Tengo have "\<forall>c\<in>set ''tengo cinco gatos''. \<not> is_digit c"
    by blast
  then have "filter is_digit ''tengo cinco gatos'' = []"
    by (simp only: filter_empty_conv)
  ultimately show ?thesis using normalize_Tengo by simp
qed

text \<open>
  Claim C1 as it is worded fails: a digit that follows an underscore is not at a
  word boundary, so the run is never matched and stays in the output.
\<close>

theorem digit_after_underscore_stays:
  "normalize_text es_runtime ''canal_5'' = Inr ''canal_5'' \<and> is_digit (CHR ''5'')"
  by (simp add: normalize_text_def lower_canal traducir_numero_a_texto_def
      is_ascii_letter_def is_digit_def match_number_iff run_len_def char_at_def
      is_word_opt_def is_word_def)

section \<open>The boundary insertion\<close>

text \<open>
  Claim C2, as the code has it.  For every input the two insertion passes together
  put one space between an ASCII letter and a digit that follow each other, in
  either order, and change nothing else; afterwards no digit is next to an ASCII
  letter.  When, in the input, every neighbour of a digit is a digit, an ASCII
  letter or not a word character, every run of digits then stands between
  characters that are not word characters.
\<close>

theorem boundary_insertion:
  "re_sub_digit_letter (re_sub_letter_digit x) = insert_spaces x
   \<and> successively apart (re_sub_digit_letter (re_sub_letter_digit x))
   \<and> (successively digit_friendly x \<longrightarrow>
        successively isolated (re_sub_digit_letter (re_sub_letter_digit x)))"
  by (simp add: two_passes_insert_spaces insert_spaces_apart insert_spaces_isolated)

theorem boundary_insertion_witness:
  "re_sub_digit_letter (re_sub_letter_digit ''room5b'') = ''room 5 b''
   \<and> successively isolated ''room 5 b''"
proof -
  have fr: "successively digit_friendly ''room5b''"
    by (simp add: digit_friendly_def number_edge_def is_digit_def is_word_def
        is_ascii_letter_def)
  have ins: "insert_spaces ''room5b'' = ''room 5 b''"
    by (simp add: gap_def is_digit_def is_ascii_letter_def)
  note b = boundary_insertion[of "''room5b''"]
  from b have e: "re_sub_digit_letter (re_sub_letter_digit ''room5b'') = ''room 5 b''"
    by (simp only: ins)
  from b fr have "successively isolated (re_sub_digit_letter (re_sub_letter_digit ''room5b''))"
    by blast
  then have "successively isolated ''room 5 b''" by (simp only: e)
  with e show ?thesis by (rule conjI)
qed

text \<open>
  Claim C2 as it is worded fails: the passes leave \<open>canal_5\<close> as it is, and there
  is no word boundary between the underscore and the digit.
\<close>

theorem underscore_blocks_boundary:
  "re_sub_digit_letter (re_sub_letter_digit ''canal_5'') = ''canal_5''
   \<and> \<not> boundary_in None ''canal_5'' 6"
  by (simp add: is_ascii_letter_def is_digit_def boundary_in_def word_boundary_def
      char_at_def is_word_opt_def is_word_def)

section \<open>A conversion that raises\<close>

text \<open>
  Claim C3, as the code has it.  Let a run of digits stand between two
  \<open>number_edge\<close> characters or ends of the text, and let the text before it
  normalise without an exception.  If the conversion of the run raises (in \<open>int\<close>
  or in \<open>num2words\<close>), the normaliser raises that exception, whatever follows the
  run; and a request with that text, valid otherwise, is answered with status
  500.
\<close>

theorem conversion_error_propagates:
  assumes "ds \<noteq> []" "\<forall>c\<in>set ds. is_digit c"
    and "pre = [] \<or> number_edge (last pre)" "post = [] \<or> number_edge (hd post)"
    and "normalize_text rt pre = Inr a" "reemplazar_numero rt ds = Inl e"
  shows "normalize_text rt (pre @ ds @ post) = Inl e
         \<and> (filename req = Some name \<and> endswith name ''.wav'' \<and> save_upload col = None
              \<and> ref_text req \<noteq> [] \<and> gen_text req = pre @ ds @ post \<longrightarrow>
            generate_audio col rt req =
              Inl (HTTPException 500 ''Error al generar el audio: '' (Some e)))"
proof -
  have n: "normalize_text rt (pre @ ds @ post) = Inl e"
    unfolding normalize_around_run[OF assms(1-4)] assms(5,6)
    by (simp add: bind_result_def)
  moreover have "pre @ ds @ post \<noteq> []" using assms(1) by simp
  ultimately show ?thesis
    by (auto simp: generate_audio_def generate_audio_body_def infer_def bind_result_def
        raising_def)
qed

theorem conversion_error_propagates_witness:
  "normalize_text es_runtime ''son 1000000000000000000000000000 euros'' = Inl OverflowError
   \<and> generate_audio quiet_collaborators es_runtime request_big =
       Inl (HTTPException 500 ''Error al generar el audio: '' (Some OverflowError))"
proof -
  have ds: "''1000000000000000000000000000'' \<noteq> []"
    "\<forall>c\<in>set ''1000000000000000000000000000''. is_digit c"
    by (simp_all add: is_digit_def)
  have pre: "''son '' = [] \<or> number_edge (last ''son '')"
    by (simp add: number_edge_def space_classes)
  have post: "'' euros'' = [] \<or> number_edge (hd '' euros'')"
    by (simp add: number_edge_def space_classes)
  have a: "normalize_text es_runtime ''son '' = Inr ''son ''"
    by (simp add: normalize_text_def lower_son traducir_without_digits is_digit_def)
  from conversion_error_propagates[OF ds pre post a reemplazar_big,
      of request_big "''voz.wav''" quiet_collaborators]
  show ?thesis
    by (simp add: request_big_def quiet_collaborators_def endswith_def)
qed

text \<open>
  Claim C3 as it is worded fails: the run is not left in place.  \<open>10 ** 27\<close> is
  beyond what the Spanish converter spells, and a run of 4301 digits is beyond
  what \<open>int\<close> reads by default; both exceptions leave the normaliser.
\<close>

theorem conversion_error_raised:
  "normalize_text es_runtime ''1000000000000000000000000000'' = Inl OverflowError
   \<and> normalize_text es_runtime (replicate 4301 (CHR ''7'')) = Inl ValueError"
proof -
  have ds: "''1000000000000000000000000000'' \<noteq> []"
    "\<forall>c\<in>set ''1000000000000000000000000000''. is_digit c"
    by (simp_all add: is_digit_def)
  have first: "normalize_text es_runtime ''1000000000000000000000000000'' = Inl OverflowError"
    unfolding normalize_digits_only[OF ds] by (rule reemplazar_big)
  have sevens: "replicate 4301 (CHR ''7'') \<noteq> []" "\<forall>c\<in>set (replicate 4301 (CHR ''7'')). is_digit c"
    by (simp_all add: is_digit_def)
  have "py_int es_runtime (replicate 4301 (CHR ''7'')) = Inl ValueError"
    by (rule py_int_ValueError) (simp_all add: es_runtime_def)
  then have "reemplazar_numero es_runtime (replicate 4301 (CHR ''7'')) = Inl ValueError"
    by (simp add: reemplazar_numero_def bind_result_def)
  then have "normalize_text es_runtime (replicate 4301 (CHR ''7'')) = Inl ValueError"
    unfolding normalize_digits_only[OF sevens] .
  with first show ?thesis by simp
qed

section \<open>Inputs without digits\<close>

text \<open>
  Claim C4.  For every input string that contains no digit, the normaliser returns
  exactly the lower-cased input: none of the three substitutions changes it and
  nothing is raised.
\<close>

theorem normalize_no_digits:
  "\<forall>c\<in>set text. \<not> is_digit c \<Longrightarrow> normalize_text rt text = Inr (lower text)"
  by (simp add: normalize_text_def lower_no_digit traducir_without_digits)

theorem normalize_no_digits_witness:
  "normalize_text es_runtime ''Hola, Mundo!'' = Inr ''hola, mundo!''"
  using normalize_no_digits [of "''Hola, Mundo!''" es_runtime]
  by (simp add: is_digit_def lower_Hola_Mundo)

section \<open>A worked input\<close>

text \<open>
  Claim C5.  Normalising \<open>"Sala123B"\<close> gives exactly
  \<open>"sala ciento veintitres b"\<close> (the second \<open>e\<close> carrying its accent, U+00E9):
  the letters are lower-cased, \<open>123\<close> is parted from them by one space on each
  side and replaced by the spelling \<open>num2words\<close> gives for 123.
\<close>

theorem normalize_Sala123B:
  "num2words rt 123 = Inr (''ciento veintitr'' @ [CHR 0xE9] @ ''s'') \<Longrightarrow>
   normalize_text rt ''Sala123B'' = Inr (''sala ciento veintitr'' @ [CHR 0xE9] @ ''s b'')"
  by (simp add: normalize_text_def lower_Sala123B traducir_numero_a_texto_def
      is_ascii_letter_def is_digit_def match_number_iff run_len_def char_at_def
      is_word_opt_def is_word_def reemplazar_numero_def py_int_def bind_result_def
      digit_value_def)

theorem normalize_Sala123B_witness:
  "normalize_text es_runtime ''Sala123B'' = Inr (''sala ciento veintitr'' @ [CHR 0xE9] @ ''s b'')"
  using normalize_Sala123B [of es_runtime] num2words_es_123 by simp

section \<open>The value of a run\<close>

text \<open>
  Claim C6, as the code has it.  Let a run of digits stand between two
  \<open>number_edge\<close> characters or ends of the text, be of a length \<open>int\<close> accepts,
  and let the texts before and after it normalise to \<open>a\<close> and \<open>b\<close>.  The run is
  read as its value in base 10, which is not negative and which leading zeros do
  not change, and is replaced by the spelling \<open>num2words\<close> returns for that value,
  with a space on each side where an ASCII letter was its neighbour.
\<close>

theorem digit_run_replaced_by_spelling:
  assumes "ds \<noteq> []" "\<forall>c\<in>set ds. is_digit c"
    and "pre = [] \<or> number_edge (last pre)" "post = [] \<or> number_edge (hd post)"
    and "length ds \<le> 640 \<or> int_max_str_digits rt = 0 \<or> length ds \<le> int_max_str_digits rt"
    and "normalize_text rt pre = Inr a" "normalize_text rt post = Inr b"
    and "num2words rt (decimal_value ds) = Inr w"
  shows "normalize_text rt (pre @ ds @ post) =
           Inr (a @ space_if_letter (pre \<noteq> [] \<and> is_ascii_letter (last pre)) @ w @
                space_if_letter (post \<noteq> [] \<and> is_ascii_letter (hd post)) @ b)
         \<and> 0 \<le> decimal_value ds
         \<and> decimal_value (replicate k (CHR ''0'') @ ds) = decimal_value ds"
proof -
  have "reemplazar_numero rt ds = Inr w"
    using py_int_decimal[OF assms(5)] assms(8) by (simp add: reemplazar_numero_def bind_result_def)
  then show ?thesis
    unfolding normalize_around_run[OF assms(1-4)] assms(6,7)
    by (simp add: bind_result_def decimal_value_leading_zeros decimal_value_nonneg[OF assms(2)])
qed

theorem digit_run_replaced_by_spelling_witness:
  "normalize_text es_runtime ''Agente 007!'' = Inr ''agente siete!''
   \<and> decimal_value ''007'' = 7"
proof -
  have ds: "''007'' \<noteq> []" "\<forall>c\<in>set ''007''. is_digit c"
    by (simp_all add: is_digit_def)
  have pre: "''Agente '' = [] \<or> number_edge (last ''Agente '')"
    by (simp add: number_edge_def space_classes)
  have post: "''!'' = [] \<or> number_edge (hd ''!'')"
    by (simp add: number_edge_def is_word_def is_digit_def is_ascii_letter_def)
  have len: "length ''007'' \<le> 640 \<or> int_max_str_digits es_runtime = 0
      \<or> length ''007'' \<le> int_max_str_digits es_runtime"
    by simp
  have a: "normalize_text es_runtime ''Agente '' = Inr ''agente ''"
    by (simp add: normalize_text_def lower_Agente traducir_without_digits is_digit_def)
  have b: "normalize_text es_runtime ''!'' = Inr ''!''"
    by (simp add: normalize_text_def lower_bang traducir_without_digits is_digit_def)
  have v: "decimal_value ''007'' = 7"
    by (simp add: digit_value_def)
  have w: "num2words es_runtime (decimal_value ''007'') = Inr ''siete''"
    unfolding v by (rule num2words_es_7)
  from digit_run_replaced_by_spelling[OF ds pre post len a b w, of 0] v
  show ?thesis by (simp add: space_if_letter_def is_ascii_letter_def)
qed

text \<open>
  Claim C6 as it is worded fails for a run that is not matched: after an
  underscore \<open>007\<close> stays as it is.
\<close>

theorem underscore_run_not_replaced:
  "normalize_text es_runtime ''_007'' = Inr ''_007''"
  by (simp add: normalize_text_def traducir_numero_a_texto_def lower_def lower_char_def
      is_ascii_letter_def is_digit_def match_number_iff run_len_def char_at_def
      is_word_opt_def is_word_def)

section \<open>Idempotence\<close>

text \<open>
  Claim C7.  For every input string \<open>x\<close> that contains no digit, normalising the
  normalised text gives the normalised text again:
  \<open>normalize(normalize(x)) == normalize(x)\<close>.
\<close>

theorem normalize_idempotent_no_digits:
  assumes "\<forall>c\<in>set x. \<not> is_digit c"
  shows "bind_result (normalize_text rt x) (normalize_text rt) = normalize_text rt x"
proof -
  have no_digit: "\<forall>c\<in>set (lower x). \<not> is_digit c"
    using assms by (simp add: lower_no_digit)
  then have first: "normalize_text rt x = Inr (lower x)"
    by (simp add: normalize_text_def traducir_without_digits)
  from no_digit have "normalize_text rt (lower x) = Inr (lower x)"
    by (simp add: normalize_text_def lower_idem traducir_without_digits)
  with first show ?thesis
    by (simp add: bind_result_def)
qed

theorem normalize_idempotent_no_digits_witness:
  "bind_result (normalize_text es_runtime ''Buenos D'') (normalize_text es_runtime) = Inr ''buenos d''"
proof -
  have nd: "\<forall>c\<in>set ''Buenos D''. \<not> is_digit c"
    by (simp add: is_digit_def)
  have nd': "\<forall>c\<in>set ''buenos d''. \<not> is_digit c"
    by (simp add: is_digit_def)
  have "normalize_text es_runtime ''Buenos D'' = Inr ''buenos d''"
    using traducir_without_digits [OF nd', of es_runtime]
    by (simp add: normalize_text_def lower_Buenos_dias)
  with normalize_idempotent_no_digits [OF nd, of es_runtime] show ?thesis
    by simp
qed

text \<open>
  Claim C10.  With spellings that contain no digit and are in lower case, as
  those of \<open>num2words\<close> are, normalisation is idempotent on every input string,
  with or without digits: the text the first pass returns is returned unchanged
  by the second, and an exception of the first pass is the result on both sides.
\<close>

theorem normalize_idempotent:
  assumes "\<forall>n w. num2words rt n = Inr w \<longrightarrow> (\<forall>c\<in>set w. \<not> is_digit c \<and> lower_char c = c)"
  shows "bind_result (normalize_text rt x) (normalize_text rt) = normalize_text rt x"
proof (cases "normalize_text rt x")
  case (Inl e)
  then show ?thesis by (simp add: bind_result_def)
next
  case (Inr y)
  define repl where "repl = reemplazar_numero rt"
  define s where "s = insert_spaces (lower x)"
  have no_digit: "\<forall>ds w. repl ds = Inr w \<longrightarrow> (\<forall>c\<in>set w. \<not> is_digit c)"
    using assms by (auto simp: repl_def reemplazar_numero_def bind_result_Inr)
  have lower_case: "\<forall>ds w. repl ds = Inr w \<longrightarrow> (\<forall>c\<in>set w. lower_char c = c)"
    using assms by (auto simp: repl_def reemplazar_numero_def bind_result_Inr)
  have run: "re_sub_numbers repl None s = Inr y"
    using Inr by (simp add: normalize_text_def traducir_insert_spaces repl_def s_def)
  have "\<forall>c\<in>set s. lower_char c = c"
    using set_insert_spaces[of "lower x"]
    by (auto simp: s_def lower_def lower_char_idem lower_char_space)
  with lower_case run have "\<forall>c\<in>set y. lower_char c = c"
    by (rule re_sub_numbers_keeps)
  then have low: "lower y = y" by (rule lower_fixed)
  have "successively apart s" unfolding s_def by (rule insert_spaces_apart)
  with no_digit run have "successively apart y" by (rule replaced_text_apart)
  then have ins: "insert_spaces y = y" by (rule apart_insert_spaces_id)
  from no_digit run have "unmatched None y" by (rule replaced_text_unmatched)
  then have "re_sub_numbers repl None y = Inr y" by (rule unmatched_fixed)
  then have "normalize_text rt y = Inr y"
    by (simp add: normalize_text_def traducir_insert_spaces low ins repl_def)
  with Inr show ?thesis by (simp add: bind_result_def)
qed

theorem normalize_idempotent_witness:
  "bind_result (normalize_text es_runtime ''Sala123B y canal_5'') (normalize_text es_runtime) =
     Inr (''sala ciento veintitr'' @ [CHR 0xE9] @ ''s b y canal_5'')"
proof -
  have words: "\<forall>n w. num2words es_runtime n = Inr w \<longrightarrow>
      (\<forall>c\<in>set w. \<not> is_digit c \<and> lower_char c = c)"
    using es_runtime_plain by blast
  from normalize_idempotent[OF words, of "''Sala123B y canal_5''"]
  show ?thesis by (simp only: normalize_Sala_canal)
qed

section \<open>The endpoint's error answers\<close>

lemma generate_audio_catch_all:
  "generate_audio col rt req = Inl e \<Longrightarrow>
     \<exists>cause. e = HTTPException 500 ''Error al generar el audio: '' (Some cause)"
  by (auto simp: generate_audio_def split: sum.splits)

lemma generate_audio_steps:
  "(filename req = None \<longrightarrow>
      generate_audio col rt req =
        Inl (HTTPException 500 ''Error al generar el audio: ''
              (Some (OtherError ''AttributeError''))))
   \<and> (filename req = Some name \<and> endswith name ''.wav'' \<and> save_upload col = Some cause \<longrightarrow>
        generate_audio col rt req =
          Inl (HTTPException 500 ''Error al generar el audio: '' (Some cause)))
   \<and> (filename req = Some name \<and> endswith name ''.wav'' \<and> save_upload col = None
        \<and> ref_text req \<noteq> [] \<and> gen_text req \<noteq> []
        \<and> infer col rt (ref_text req) (gen_text req) (remove_silence req) = Inl cause \<longrightarrow>
        generate_audio col rt req =
          Inl (HTTPException 500 ''Error al generar el audio: '' (Some cause)))
   \<and> (filename req = Some name \<and> endswith name ''.wav'' \<and> save_upload col = None
        \<and> ref_text req \<noteq> [] \<and> gen_text req \<noteq> []
        \<and> infer col rt (ref_text req) (gen_text req) (remove_silence req) = Inr wave
        \<and> write_output col wave = Some cause \<longrightarrow>
        generate_audio col rt req =
          Inl (HTTPException 500 ''Error al generar el audio: '' (Some cause)))
   \<and> (filename req = Some name \<and> endswith name ''.wav'' \<and> save_upload col = None
        \<and> ref_text req \<noteq> [] \<and> gen_text req \<noteq> []
        \<and> infer col rt (ref_text req) (gen_text req) (remove_silence req) = Inr wave
        \<and> write_output col wave = None \<longrightarrow>
        generate_audio col rt req = Inr (FileResponse wave))"
  by (auto simp: generate_audio_def generate_audio_body_def bind_result_def raising_def)

lemma post_generate_audio_status:
  "post_generate_audio col rt None = 422
   \<and> post_generate_audio col rt (Some req) =
       (case generate_audio col rt req of Inl _ \<Rightarrow> 500 | Inr _ \<Rightarrow> 200)"
proof -
  have "post_generate_audio col rt (Some req) =
       (case generate_audio col rt req of Inl _ \<Rightarrow> 500 | Inr _ \<Rightarrow> 200)"
  proof (cases "generate_audio col rt req")
    case (Inl e)
    then obtain cause where "e = HTTPException 500 ''Error al generar el audio: '' (Some cause)"
      using generate_audio_catch_all by blast
    with Inl show ?thesis by (simp add: post_generate_audio_def status_of_def)
  next
    case (Inr r)
    then show ?thesis by (simp add: post_generate_audio_def status_of_def)
  qed
  then show ?thesis by (simp add: post_generate_audio_def)
qed

text \<open>
  Claim C9, as the code has it.  Once the handler is called, every failure is
  answered with status 500 and nothing else is: the answer is the file exactly
  when the file name ends in \<open>.wav\<close>, the upload is saved, both texts are given,
  and normalising, inference, trimming, the spectrogram and writing the output
  all succeed; in every other case \<open>except Exception\<close> raises an \<open>HTTPException\<close>
  with status 500 and the cause in its detail.  The two validation failures
  are among them: the \<open>HTTPException\<close> with status 400 for a file name that does
  not end in \<open>.wav\<close>, and the one for an empty \<open>ref_text\<close> or \<open>gen_text\<close>, are
  caught and raised again as status 500; so are a missing file name, a failed
  upload, an exception of \<open>infer\<close> and a failed write.  A request that is refused
  before the handler is called is answered with status 422.
\<close>

theorem generate_audio_failures_are_500:
  "(generate_audio col rt req = Inl e \<longrightarrow>
      (\<exists>cause. e = HTTPException 500 ''Error al generar el audio: '' (Some cause)))
   \<and> (filename req = Some name \<and> \<not> endswith name ''.wav'' \<longrightarrow>
        generate_audio col rt req =
          Inl (HTTPException 500 ''Error al generar el audio: ''
                (Some (HTTPException 400 ''El archivo de audio debe estar en formato WAV.''
                         None))))
   \<and> (filename req = Some name \<and> endswith name ''.wav'' \<and> save_upload col = None
        \<and> (ref_text req = [] \<or> gen_text req = []) \<longrightarrow>
        generate_audio col rt req =
          Inl (HTTPException 500 ''Error al generar el audio: ''
                (Some (HTTPException 400
                         (''Ambos textos (de referencia y generaci'' @ [CHR 0xF3] @
                          ''n) son obligatorios.'') None))))
   \<and> ((\<exists>r. generate_audio col rt req = Inr r) \<longleftrightarrow>
        (\<exists>name' g w0 w.
           filename req = Some name' \<and> endswith name' ''.wav'' \<and> save_upload col = None
           \<and> ref_text req \<noteq> [] \<and> gen_text req \<noteq> []
           \<and> normalize_text rt (gen_text req) = Inr g
           \<and> infer_process col (ref_text req) g = Inr w0
           \<and> (if remove_silence req then trim_silence col w0 else Inr w0) = Inr w
           \<and> save_spectrogram col = None \<and> write_output col w = None
           \<and> generate_audio col rt req = Inr (FileResponse w)))
   \<and> (filename req = None \<longrightarrow>
        generate_audio col rt req =
          Inl (HTTPException 500 ''Error al generar el audio: ''
                (Some (OtherError ''AttributeError''))))
   \<and> (filename req = Some name \<and> endswith name ''.wav'' \<and> save_upload col = Some cause \<longrightarrow>
        generate_audio col rt req =
          Inl (HTTPException 500 ''Error al generar el audio: '' (Some cause)))
   \<and> (filename req = Some name \<and> endswith name ''.wav'' \<and> save_upload col = None
        \<and> ref_text req \<noteq> [] \<and> gen_text req \<noteq> []
        \<and> infer col rt (ref_text req) (gen_text req) (remove_silence req) = Inl cause \<longrightarrow>
        generate_audio col rt req =
          Inl (HTTPException 500 ''Error al generar el audio: '' (Some cause)))
   \<and> (filename req = Some name \<and> endswith name ''.wav'' \<and> save_upload col = None
        \<and> ref_text req \<noteq> [] \<and> gen_text req \<noteq> []
        \<and> infer col rt (ref_text req) (gen_text req) (remove_silence req) = Inr wave
        \<and> write_output col wave = Some cause \<longrightarrow>
        generate_audio col rt req =
          Inl (HTTPException 500 ''Error al generar el audio: '' (Some cause)))
   \<and> post_generate_audio col rt (Some req) =
        (case generate_audio col rt req of Inl _ \<Rightarrow> 500 | Inr _ \<Rightarrow> 200)
   \<and> post_generate_audio col rt None = 422"
proof (intro conjI)
  show "generate_audio col rt req = Inl e \<longrightarrow>
      (\<exists>cause. e = HTTPException 500 ''Error al generar el audio: '' (Some cause))"
    using generate_audio_catch_all by blast
  show "filename req = Some name \<and> \<not> endswith name ''.wav'' \<longrightarrow>
        generate_audio col rt req =
          Inl (HTTPException 500 ''Error al generar el audio: ''
                (Some (HTTPException 400 ''El archivo de audio debe estar en formato WAV.''
                         None)))"
    by (simp add: generate_audio_def generate_audio_body_def)
  show "filename req = Some name \<and> endswith name ''.wav'' \<and> save_upload col = None
        \<and> (ref_text req = [] \<or> gen_text req = []) \<longrightarrow>
        generate_audio col rt req =
          Inl (HTTPException 500 ''Error al generar el audio: ''
                (Some (HTTPException 400
                         (''Ambos textos (de referencia y generaci'' @ [CHR 0xF3] @
                          ''n) son obligatorios.'') None)))"
    by (auto simp: generate_audio_def generate_audio_body_def bind_result_def raising_def)
  show "(\<exists>r. generate_audio col rt req = Inr r) \<longleftrightarrow>
        (\<exists>name' g w0 w.
           filename req = Some name' \<and> endswith name' ''.wav'' \<and> save_upload col = None
           \<and> ref_text req \<noteq> [] \<and> gen_text req \<noteq> []
           \<and> normalize_text rt (gen_text req) = Inr g
           \<and> infer_process col (ref_text req) g = Inr w0
           \<and> (if remove_silence req then trim_silence col w0 else Inr w0) = Inr w
           \<and> save_spectrogram col = None \<and> write_output col w = None
           \<and> generate_audio col rt req = Inr (FileResponse w))"
    by (auto simp: generate_audio_def generate_audio_body_def infer_def bind_result_def
        raising_def split: option.splits sum.splits if_splits)
  show "post_generate_audio col rt (Some req) =
        (case generate_audio col rt req of Inl _ \<Rightarrow> 500 | Inr _ \<Rightarrow> 200)"
    using post_generate_audio_status by blast
  show "post_generate_audio col rt None = 422"
    using post_generate_audio_status by blast
qed (use generate_audio_steps[of req col rt name cause wave] in blast)+

theorem generate_audio_failures_are_500_witness:
  "generate_audio quiet_collaborators es_runtime request_mp3 =
     Inl (HTTPException 500 ''Error al generar el audio: ''
           (Some (HTTPException 400 ''El archivo de audio debe estar en formato WAV.'' None)))
   \<and> generate_audio quiet_collaborators es_runtime request_no_text =
     Inl (HTTPException 500 ''Error al generar el audio: ''
           (Some (HTTPException 400
                    (''Ambos textos (de referencia y generaci'' @ [CHR 0xF3] @
                     ''n) son obligatorios.'') None)))
   \<and> generate_audio disk_full es_runtime request_hola =
     Inl (HTTPException 500 ''Error al generar el audio: '' (Some (OtherError ''OSError'')))
   \<and> post_generate_audio disk_full es_runtime (Some request_hola) = 500
   \<and> generate_audio quiet_collaborators es_runtime request_hola = Inr (FileResponse ''hola'')
   \<and> post_generate_audio quiet_collaborators es_runtime (Some request_hola) = 200"
proof -
  have inf: "\<And>col. infer_process col = (\<lambda>r g. Inr g) \<Longrightarrow> save_spectrogram col = None \<Longrightarrow>
      infer col es_runtime ''hola'' ''Hola'' False = Inr ''hola''"
    by (simp add: infer_def bind_result_def raising_def normalize_Hola)
  have q: "infer quiet_collaborators es_runtime ''hola'' ''Hola'' False = Inr ''hola''"
    by (rule inf) (simp_all add: quiet_collaborators_def)
  have d: "infer disk_full es_runtime ''hola'' ''Hola'' False = Inr ''hola''"
    by (rule inf) (simp_all add: disk_full_def quiet_collaborators_def)
  note a = generate_audio_failures_are_500
      [of quiet_collaborators es_runtime request_mp3 _ "''voz.mp3''"]
  note b = generate_audio_failures_are_500
      [of quiet_collaborators es_runtime request_no_text _ "''voz.wav''"]
  note c = generate_audio_failures_are_500
      [of disk_full es_runtime request_hola _ "''voz.wav''" "OtherError ''OSError''" "''hola''"]
  have ok: "generate_audio quiet_collaborators es_runtime request_hola =
      Inr (FileResponse ''hola'')"
    using q by (simp add: generate_audio_def generate_audio_body_def bind_result_def
        raising_def request_hola_def quiet_collaborators_def endswith_def)
  note e = generate_audio_failures_are_500[of quiet_collaborators es_runtime request_hola]
  have r1: "generate_audio quiet_collaborators es_runtime request_mp3 =
     Inl (HTTPException 500 ''Error al generar el audio: ''
           (Some (HTTPException 400 ''El archivo de audio debe estar en formato WAV.'' None)))"
    using a by (simp add: request_mp3_def endswith_def)
  have r2: "generate_audio quiet_collaborators es_runtime request_no_text =
     Inl (HTTPException 500 ''Error al generar el audio: ''
           (Some (HTTPException 400
                    (''Ambos textos (de referencia y generaci'' @ [CHR 0xF3] @
                     ''n) son obligatorios.'') None)))"
    using b by (simp add: request_no_text_def quiet_collaborators_def endswith_def)
  have r3: "generate_audio disk_full es_runtime request_hola =
     Inl (HTTPException 500 ''Error al generar el audio: '' (Some (OtherError ''OSError'')))"
    using c d by (simp add: request_hola_def disk_full_def quiet_collaborators_def endswith_def)
  from c r3 have r4: "post_generate_audio disk_full es_runtime (Some request_hola) = 500"
    by simp
  from e ok have r5: "post_generate_audio quiet_collaborators es_runtime (Some request_hola) = 200"
    by simp
  from r1 r2 r3 r4 ok r5 show ?thesis by (intro conjI)
qed

text \<open>
  Claim C9 as it is worded fails: a request without the required \<open>ref_audio\<close> part
  is a failure of the endpoint that is answered with status 422, not 500; the
  handler and its \<open>except Exception\<close> never run.
\<close>

theorem missing_file_is_answered_422:
  "post_generate_audio quiet_collaborators es_runtime None = 422"
  by (simp add: post_generate_audio_def)

end
